theory Spec2Isabelle
  imports Main "HOL-Library.Monad_Syntax"
begin

section \<open>Memory model\<close>

text \<open>
  The container of \<^verbatim>\<open>linked_hashmap.hpp\<close> is a pointer structure: every entry is a
  heap node that is a member of one bucket chain and of the doubly linked order list, and
  iterators hold raw pointers to nodes and to their container.  The model therefore keeps
  an explicit store.  An address is a natural number, a pointer is an optional address
  (\<open>None\<close> is \<^verbatim>\<open>nullptr\<close>).

  A \<^verbatim>\<open>LinkNode\<close> has the two order links only; a \<^verbatim>\<open>Node\<close> extends it by the
  key/value pair and the chain link.  Both are one record here: \<open>data = None\<close> marks a
  plain \<^verbatim>\<open>LinkNode\<close> (a sentinel).

  Every operation returns an \<open>option\<close>: \<open>None\<close> stands for "no defined result", that is
  undefined behaviour of the C++ code (a read through a null or dangling pointer, an
  out-of-range array index, a remainder by zero) or a loop that does not terminate.
  A thrown exception is a value \<open>Inl e\<close> of the result.

  \<^verbatim>\<open>size_t\<close> counters are modelled as \<open>nat\<close> (the number of live nodes is bounded by the
  address space, far below \<open>2 ^ 64\<close>); the one decrement writes out its wrap-around.
  The comparison with \<^verbatim>\<open>bucket_capacity * LOAD_FACTOR\<close>, \<^verbatim>\<open>LOAD_FACTOR = 0.75\<close>, is
  written in integers: \<open>n + 1 > c * 0.75\<close> is \<open>4 * (n + 1) > 3 * c\<close>.
  \<^verbatim>\<open>Equal\<close> is the default \<^verbatim>\<open>std::equal_to<Key>\<close>, i.e. equality; the hash functor is
  a parameter \<open>hasher\<close> of every operation that uses it.
\<close>

type_synonym addr = nat
type_synonym ptr = "addr option"

record ('k, 'v) link_node =
  order_prev :: ptr
  order_next :: ptr
  data :: "('k \<times> 'v) option"
  next_in_bucket :: ptr

record linked_hashmap =
  buckets :: "ptr list"
  order_head :: ptr
  order_tail :: ptr
  bucket_capacity :: nat
  num_elements :: nat

record ('k, 'v) store =
  heap :: "addr \<rightharpoonup> ('k, 'v) link_node"
  objs :: "addr \<rightharpoonup> linked_hashmap"
  brk :: addr

record iterator =
  node :: ptr
  map_ptr :: ptr

datatype error = invalid_iterator | index_out_of_bound

definition INIT_CAPACITY :: nat where
  "INIT_CAPACITY = 16"

subsection \<open>Loads, stores, allocation\<close>

definition load :: "('k, 'v) store \<Rightarrow> ptr \<Rightarrow> ('k, 'v) link_node option" where
  "load s p = (case p of None \<Rightarrow> None | Some a \<Rightarrow> heap s a)"

text \<open>An access through a \<^verbatim>\<open>Node*\<close>: the object must be a \<^verbatim>\<open>Node\<close>, not a bare \<^verbatim>\<open>LinkNode\<close>.\<close>

definition load_Node :: "('k, 'v) store \<Rightarrow> ptr \<Rightarrow> ('k, 'v) link_node option" where
  "load_Node s p = (case load s p of None \<Rightarrow> None
     | Some n \<Rightarrow> (if data n = None then None else Some n))"

definition load_obj :: "('k, 'v) store \<Rightarrow> ptr \<Rightarrow> linked_hashmap option" where
  "load_obj s p = (case p of None \<Rightarrow> None | Some a \<Rightarrow> objs s a)"

definition nth_opt :: "'a list \<Rightarrow> nat \<Rightarrow> 'a option" where
  "nth_opt xs i = (if i < length xs then Some (xs ! i) else None)"

definition set_order_next :: "ptr \<Rightarrow> ptr \<Rightarrow> ('k, 'v) store \<Rightarrow> ('k, 'v) store option" where
  "set_order_next p q s = (case p of None \<Rightarrow> None | Some a \<Rightarrow>
     (case heap s a of None \<Rightarrow> None
      | Some n \<Rightarrow> Some (s\<lparr>heap := (heap s)(a \<mapsto> n\<lparr>order_next := q\<rparr>)\<rparr>)))"

definition set_order_prev :: "ptr \<Rightarrow> ptr \<Rightarrow> ('k, 'v) store \<Rightarrow> ('k, 'v) store option" where
  "set_order_prev p q s = (case p of None \<Rightarrow> None | Some a \<Rightarrow>
     (case heap s a of None \<Rightarrow> None
      | Some n \<Rightarrow> Some (s\<lparr>heap := (heap s)(a \<mapsto> n\<lparr>order_prev := q\<rparr>)\<rparr>)))"

definition set_next_in_bucket :: "ptr \<Rightarrow> ptr \<Rightarrow> ('k, 'v) store \<Rightarrow> ('k, 'v) store option" where
  "set_next_in_bucket p q s = (case load_Node s p of None \<Rightarrow> None
     | Some n \<Rightarrow> Some (s\<lparr>heap := (heap s)(the p \<mapsto> n\<lparr>next_in_bucket := q\<rparr>)\<rparr>))"

definition set_obj :: "addr \<Rightarrow> linked_hashmap \<Rightarrow> ('k, 'v) store \<Rightarrow> ('k, 'v) store" where
  "set_obj this M s = s\<lparr>objs := (objs s)(this \<mapsto> M)\<rparr>"

text \<open>\<^verbatim>\<open>new\<close>: the allocator hands out the next unused address; \<^verbatim>\<open>delete\<close> unmaps one.\<close>

definition new_node :: "('k, 'v) link_node \<Rightarrow> ('k, 'v) store \<Rightarrow> addr \<times> ('k, 'v) store" where
  "new_node n s = (brk s, s\<lparr>heap := (heap s)(brk s \<mapsto> n), brk := Suc (brk s)\<rparr>)"

definition delete_node :: "ptr \<Rightarrow> ('k, 'v) store \<Rightarrow> ('k, 'v) store option" where
  "delete_node p s = (case p of None \<Rightarrow> Some s | Some a \<Rightarrow>
     (case heap s a of None \<Rightarrow> None
      | Some n \<Rightarrow> Some (s\<lparr>heap := (heap s)(a := None)\<rparr>)))"

definition LinkNode :: "('k, 'v) link_node" where
  "LinkNode = \<lparr>order_prev = None, order_next = None, data = None, next_in_bucket = None\<rparr>"

definition Node :: "'k \<Rightarrow> 'v \<Rightarrow> ('k, 'v) link_node" where
  "Node k v = \<lparr>order_prev = None, order_next = None, data = Some (k, v), next_in_bucket = None\<rparr>"

section \<open>The container\<close>

definition get_bucket_index :: "('k \<Rightarrow> nat) \<Rightarrow> linked_hashmap \<Rightarrow> 'k \<Rightarrow> nat option" where
  "get_bucket_index hasher M key =
     (if bucket_capacity M = 0 then None else Some (hasher key mod bucket_capacity M))"

definition init_empty :: "addr \<Rightarrow> ('k, 'v) store \<Rightarrow> ('k, 'v) store option" where
  "init_empty this s = do {
     M \<leftarrow> objs s this;
     let (h, s1) = new_node LinkNode s;
     let s2 = set_obj this (M\<lparr>order_head := Some h\<rparr>) s1;
     M2 \<leftarrow> objs s2 this;
     let (t, s3) = new_node LinkNode s2;
     let s4 = set_obj this (M2\<lparr>order_tail := Some t\<rparr>) s3;
     M4 \<leftarrow> objs s4 this;
     s5 \<leftarrow> set_order_next (order_head M4) (order_tail M4) s4;
     set_order_prev (order_tail M4) (order_head M4) s5
   }"

definition lhm_begin :: "addr \<Rightarrow> ('k, 'v) store \<Rightarrow> iterator option" where
  "lhm_begin this s = do {
     M \<leftarrow> objs s this;
     h \<leftarrow> load s (order_head M);
     Some \<lparr>node = order_next h, map_ptr = Some this\<rparr>
   }"

definition lhm_end :: "addr \<Rightarrow> ('k, 'v) store \<Rightarrow> iterator option" where
  "lhm_end this s = do {
     M \<leftarrow> objs s this;
     Some \<lparr>node = order_tail M, map_ptr = Some this\<rparr>
   }"

definition lhm_empty :: "addr \<Rightarrow> ('k, 'v) store \<Rightarrow> bool option" where
  "lhm_empty this s = do { M \<leftarrow> objs s this; Some (num_elements M = 0) }"

definition lhm_size :: "addr \<Rightarrow> ('k, 'v) store \<Rightarrow> nat option" where
  "lhm_size this s = do { M \<leftarrow> objs s this; Some (num_elements M) }"

subsection \<open>Iterators\<close>

text \<open>
  \<^verbatim>\<open>iterator\<close> and \<^verbatim>\<open>const_iterator\<close> have the same code; one model serves both.
  A reference to the stored pair (or to its second component) is the address of the node.
\<close>

definition it_pre_inc :: "iterator \<Rightarrow> ('k, 'v) store \<Rightarrow> (error + iterator) option" where
  "it_pre_inc it s =
     (if map_ptr it = None \<or> node it = None then Some (Inl invalid_iterator)
      else do {
        M \<leftarrow> load_obj s (map_ptr it);
        if node it = order_tail M then Some (Inl invalid_iterator)
        else do {
          n \<leftarrow> load s (node it);
          Some (Inr (it\<lparr>node := order_next n\<rparr>))
        }
      })"

definition it_pre_dec :: "iterator \<Rightarrow> ('k, 'v) store \<Rightarrow> (error + iterator) option" where
  "it_pre_dec it s =
     (if map_ptr it = None \<or> node it = None then Some (Inl invalid_iterator)
      else do {
        M \<leftarrow> load_obj s (map_ptr it);
        h \<leftarrow> load s (order_head M);
        if node it = order_next h then Some (Inl invalid_iterator)
        else do {
          n \<leftarrow> load s (node it);
          Some (Inr (it\<lparr>node := order_prev n\<rparr>))
        }
      })"

text \<open>The postfix forms return the old iterator and leave the operand advanced.\<close>

definition it_post_inc :: "iterator \<Rightarrow> ('k, 'v) store \<Rightarrow> (error + iterator \<times> iterator) option" where
  "it_post_inc it s = (case it_pre_inc it s of None \<Rightarrow> None
     | Some (Inl e) \<Rightarrow> Some (Inl e) | Some (Inr it') \<Rightarrow> Some (Inr (it, it')))"

definition it_post_dec :: "iterator \<Rightarrow> ('k, 'v) store \<Rightarrow> (error + iterator \<times> iterator) option" where
  "it_post_dec it s = (case it_pre_dec it s of None \<Rightarrow> None
     | Some (Inl e) \<Rightarrow> Some (Inl e) | Some (Inr it') \<Rightarrow> Some (Inr (it, it')))"

definition it_deref :: "iterator \<Rightarrow> ('k, 'v) store \<Rightarrow> (error + ptr) option" where
  "it_deref it s =
     (if map_ptr it = None \<or> node it = None then Some (Inl invalid_iterator)
      else do {
        M \<leftarrow> load_obj s (map_ptr it);
        if node it = order_tail M \<or> node it = order_head M then Some (Inl invalid_iterator)
        else Some (Inr (node it))
      })"

text \<open>\<^verbatim>\<open>operator->\<close> is \<^verbatim>\<open>noexcept\<close> and checks nothing.\<close>

definition it_arrow :: "iterator \<Rightarrow> ('k, 'v) store \<Rightarrow> (error + ptr) option" where
  "it_arrow it s = Some (Inr (node it))"

text \<open>Reading and writing through a reference to the pair of a node.\<close>

definition ref_data :: "('k, 'v) store \<Rightarrow> ptr \<Rightarrow> ('k \<times> 'v) option" where
  "ref_data s p = (case load s p of None \<Rightarrow> None | Some n \<Rightarrow> data n)"

definition ref_second :: "('k, 'v) store \<Rightarrow> ptr \<Rightarrow> 'v option" where
  "ref_second s p = map_option snd (ref_data s p)"

definition assign_second :: "ptr \<Rightarrow> 'v \<Rightarrow> ('k, 'v) store \<Rightarrow> ('k, 'v) store option" where
  "assign_second p v s = (case load_Node s p of None \<Rightarrow> None
     | Some n \<Rightarrow> Some (s\<lparr>heap := (heap s)(the p \<mapsto> n\<lparr>data := map_option (\<lambda>kv. (fst kv, v)) (data n)\<rparr>)\<rparr>))"

subsection \<open>find\<close>

partial_function (option) find_loop ::
  "('k, 'v) store \<Rightarrow> addr \<Rightarrow> 'k \<Rightarrow> ptr \<Rightarrow> iterator option" where
  "find_loop s this key p =
     (if p = None then lhm_end this s
      else do {
        n \<leftarrow> load_Node s p;
        kv \<leftarrow> data n;
        if fst kv = key then Some \<lparr>node = p, map_ptr = Some this\<rparr>
        else find_loop s this key (next_in_bucket n)
      })"

declare find_loop.simps [code]

definition lhm_find :: "('k \<Rightarrow> nat) \<Rightarrow> addr \<Rightarrow> 'k \<Rightarrow> ('k, 'v) store \<Rightarrow> iterator option" where
  "lhm_find hasher this key s = do {
     M \<leftarrow> objs s this;
     idx \<leftarrow> get_bucket_index hasher M key;
     p \<leftarrow> nth_opt (buckets M) idx;
     find_loop s this key p
   }"

definition lhm_count :: "('k \<Rightarrow> nat) \<Rightarrow> addr \<Rightarrow> 'k \<Rightarrow> ('k, 'v) store \<Rightarrow> nat option" where
  "lhm_count hasher this key s = do {
     it \<leftarrow> lhm_find hasher this key s;
     e \<leftarrow> lhm_end this s;
     Some (if it \<noteq> e then 1 else 0)
   }"

subsection \<open>rehash\<close>

partial_function (option) rehash_loop ::
  "('k \<Rightarrow> nat) \<Rightarrow> nat \<Rightarrow> ptr \<Rightarrow> ptr list \<Rightarrow> ptr \<Rightarrow> ('k, 'v) store
     \<Rightarrow> (ptr list \<times> ('k, 'v) store) option" where
  "rehash_loop hasher new_capacity tail new_buckets cur s =
     (if cur = tail then Some (new_buckets, s)
      else do {
        n \<leftarrow> load_Node s cur;
        kv \<leftarrow> data n;
        idx \<leftarrow> (if new_capacity = 0 then None else Some (hasher (fst kv) mod new_capacity));
        b \<leftarrow> nth_opt new_buckets idx;
        s1 \<leftarrow> set_next_in_bucket cur b s;
        n1 \<leftarrow> load s1 cur;
        rehash_loop hasher new_capacity tail (new_buckets[idx := cur]) (order_next n1) s1
      })"

declare rehash_loop.simps [code]

definition rehash :: "('k \<Rightarrow> nat) \<Rightarrow> addr \<Rightarrow> ('k, 'v) store \<Rightarrow> ('k, 'v) store option" where
  "rehash hasher this s = do {
     M \<leftarrow> objs s this;
     let new_capacity = bucket_capacity M * 2;
     h \<leftarrow> load s (order_head M);
     (new_buckets, s1) \<leftarrow>
       rehash_loop hasher new_capacity (order_tail M) (replicate new_capacity None) (order_next h) s;
     M1 \<leftarrow> objs s1 this;
     Some (set_obj this (M1\<lparr>buckets := new_buckets, bucket_capacity := new_capacity\<rparr>) s1)
   }"

subsection \<open>insert\<close>

text \<open>Lines 381--392 of the source: allocate the node, push it on its chain, link it before the tail.\<close>

definition insert_new :: "('k \<Rightarrow> nat) \<Rightarrow> addr \<Rightarrow> 'k \<times> 'v \<Rightarrow> ('k, 'v) store
    \<Rightarrow> ((iterator \<times> bool) \<times> ('k, 'v) store) option" where
  "insert_new hasher this value s = do {
     let (a, s1) = new_node (Node (fst value) (snd value)) s;
     let new_node = Some a;
     M \<leftarrow> objs s1 this;
     idx \<leftarrow> get_bucket_index hasher M (fst value);
     b \<leftarrow> nth_opt (buckets M) idx;
     s2 \<leftarrow> set_next_in_bucket new_node b s1;
     let s3 = set_obj this (M\<lparr>buckets := (buckets M)[idx := new_node]\<rparr>) s2;
     M3 \<leftarrow> objs s3 this;
     t \<leftarrow> load s3 (order_tail M3);
     s4 \<leftarrow> set_order_prev new_node (order_prev t) s3;
     s5 \<leftarrow> set_order_next new_node (order_tail M3) s4;
     t5 \<leftarrow> load s5 (order_tail M3);
     s6 \<leftarrow> set_order_next (order_prev t5) new_node s5;
     s7 \<leftarrow> set_order_prev (order_tail M3) new_node s6;
     M7 \<leftarrow> objs s7 this;
     let s8 = set_obj this (M7\<lparr>num_elements := num_elements M7 + 1\<rparr>) s7;
     Some ((\<lparr>node = new_node, map_ptr = Some this\<rparr>, True), s8)
   }"

definition lhm_insert :: "('k \<Rightarrow> nat) \<Rightarrow> addr \<Rightarrow> 'k \<times> 'v \<Rightarrow> ('k, 'v) store
    \<Rightarrow> ((iterator \<times> bool) \<times> ('k, 'v) store) option" where
  "lhm_insert hasher this value s = do {
     it \<leftarrow> lhm_find hasher this (fst value) s;
     e \<leftarrow> lhm_end this s;
     if it \<noteq> e then Some ((it, False), s)
     else do {
       M \<leftarrow> objs s this;
       s1 \<leftarrow> (if 4 * (num_elements M + 1) > 3 * bucket_capacity M
               then rehash hasher this s else Some s);
       insert_new hasher this value s1
     }
   }"

subsection \<open>erase\<close>

partial_function (option) erase_loop ::
  "('k, 'v) store \<Rightarrow> ptr \<Rightarrow> ptr \<Rightarrow> ptr \<Rightarrow> ptr option" where
  "erase_loop s cur prev p =
     (if p = cur then Some prev
      else do {
        n \<leftarrow> load_Node s p;
        erase_loop s cur p (next_in_bucket n)
      })"

declare erase_loop.simps [code]

definition lhm_erase :: "('k \<Rightarrow> nat) \<Rightarrow> addr \<Rightarrow> iterator \<Rightarrow> ('k, 'v) store
    \<Rightarrow> ((error + unit) \<times> ('k, 'v) store) option" where
  "lhm_erase hasher this pos s =
     (if map_ptr pos \<noteq> Some this \<or> node pos = None then Some (Inl invalid_iterator, s)
      else do {
        M \<leftarrow> objs s this;
        if node pos = order_tail M \<or> node pos = order_head M then Some (Inl invalid_iterator, s)
        else do {
          let cur = node pos;
          c \<leftarrow> load_Node s cur;
          kv \<leftarrow> data c;
          idx \<leftarrow> get_bucket_index hasher M (fst kv);
          b \<leftarrow> nth_opt (buckets M) idx;
          prev \<leftarrow> erase_loop s cur None b;
          s1 \<leftarrow> (if prev \<noteq> None then set_next_in_bucket prev (next_in_bucket c) s
                  else Some (set_obj this (M\<lparr>buckets := (buckets M)[idx := next_in_bucket c]\<rparr>) s));
          c1 \<leftarrow> load s1 cur;
          s2 \<leftarrow> set_order_next (order_prev c1) (order_next c1) s1;
          c2 \<leftarrow> load s2 cur;
          s3 \<leftarrow> set_order_prev (order_next c2) (order_prev c2) s2;
          s4 \<leftarrow> delete_node cur s3;
          M4 \<leftarrow> objs s4 this;
          let n' = (if num_elements M4 = 0 then 2 ^ 64 - 1 else num_elements M4 - 1);
          Some (Inr (), set_obj this (M4\<lparr>num_elements := n'\<rparr>) s4)
        }
      })"

subsection \<open>clear\<close>

partial_function (option) clear_loop ::
  "ptr \<Rightarrow> ptr \<Rightarrow> ('k, 'v) store \<Rightarrow> ('k, 'v) store option" where
  "clear_loop tail cur s =
     (if cur = tail then Some s
      else do {
        n \<leftarrow> load s cur;
        s1 \<leftarrow> delete_node cur s;
        clear_loop tail (order_next n) s1
      })"

declare clear_loop.simps [code]

definition lhm_clear :: "addr \<Rightarrow> ('k, 'v) store \<Rightarrow> ('k, 'v) store option" where
  "lhm_clear this s = do {
     M \<leftarrow> objs s this;
     h \<leftarrow> load s (order_head M);
     s1 \<leftarrow> clear_loop (order_tail M) (order_next h) s;
     s2 \<leftarrow> set_order_next (order_head M) (order_tail M) s1;
     s3 \<leftarrow> set_order_prev (order_tail M) (order_head M) s2;
     M3 \<leftarrow> objs s3 this;
     if length (buckets M3) < bucket_capacity M3 then None
     else Some (set_obj this
       (M3\<lparr>buckets := replicate (bucket_capacity M3) None @ drop (bucket_capacity M3) (buckets M3),
           num_elements := 0\<rparr>) s3)
   }"

subsection \<open>Element access\<close>

definition lhm_at :: "('k \<Rightarrow> nat) \<Rightarrow> addr \<Rightarrow> 'k \<Rightarrow> ('k, 'v) store \<Rightarrow> (error + ptr) option" where
  "lhm_at hasher this key s = do {
     it \<leftarrow> lhm_find hasher this key s;
     e \<leftarrow> lhm_end this s;
     if it = e then Some (Inl index_out_of_bound)
     else it_arrow it s
   }"

text \<open>The mutating \<^verbatim>\<open>operator[]\<close>; \<open>dflt\<close> is the value-initialised \<^verbatim>\<open>T()\<close>.\<close>

definition lhm_index :: "('k \<Rightarrow> nat) \<Rightarrow> 'v \<Rightarrow> addr \<Rightarrow> 'k \<Rightarrow> ('k, 'v) store
    \<Rightarrow> (ptr \<times> ('k, 'v) store) option" where
  "lhm_index hasher dflt this key s = do {
     it \<leftarrow> lhm_find hasher this key s;
     e \<leftarrow> lhm_end this s;
     if it \<noteq> e then Some (node it, s)
     else do {
       (p, s1) \<leftarrow> lhm_insert hasher this (key, dflt) s;
       Some (node (fst p), s1)
     }
   }"

text \<open>The \<^verbatim>\<open>const\<close> \<^verbatim>\<open>operator[]\<close> returns \<^verbatim>\<open>at(key)\<close>.\<close>

definition lhm_index_const :: "('k \<Rightarrow> nat) \<Rightarrow> addr \<Rightarrow> 'k \<Rightarrow> ('k, 'v) store \<Rightarrow> (error + ptr) option" where
  "lhm_index_const hasher this key s = lhm_at hasher this key s"

subsection \<open>Construction, copy, assignment\<close>

definition lhm_ctor :: "addr \<Rightarrow> ('k, 'v) store \<Rightarrow> ('k, 'v) store option" where
  "lhm_ctor this s =
     init_empty this (set_obj this
       \<lparr>buckets = replicate INIT_CAPACITY None, order_head = None, order_tail = None,
        bucket_capacity = INIT_CAPACITY, num_elements = 0\<rparr> s)"

text \<open>The loop \<^verbatim>\<open>for (it = other.cbegin(); it != other.cend(); ++it) insert(*it);\<close>\<close>

partial_function (option) copy_loop ::
  "('k \<Rightarrow> nat) \<Rightarrow> addr \<Rightarrow> addr \<Rightarrow> iterator \<Rightarrow> ('k, 'v) store
     \<Rightarrow> ((error + unit) \<times> ('k, 'v) store) option" where
  "copy_loop hasher this other it s = do {
     e \<leftarrow> lhm_end other s;
     if it = e then Some (Inr (), s)
     else do {
       r \<leftarrow> it_deref it s;
       case r of Inl err \<Rightarrow> Some (Inl err, s)
       | Inr p \<Rightarrow> do {
           kv \<leftarrow> ref_data s p;
           (_, s1) \<leftarrow> lhm_insert hasher this kv s;
           r1 \<leftarrow> it_pre_inc it s1;
           case r1 of Inl err \<Rightarrow> Some (Inl err, s1)
           | Inr it1 \<Rightarrow> copy_loop hasher this other it1 s1
         }
     }
   }"

declare copy_loop.simps [code]

definition copy_from :: "('k \<Rightarrow> nat) \<Rightarrow> addr \<Rightarrow> addr \<Rightarrow> ('k, 'v) store
    \<Rightarrow> ((error + unit) \<times> ('k, 'v) store) option" where
  "copy_from hasher this other s = do {
     it \<leftarrow> lhm_begin other s;
     copy_loop hasher this other it s
   }"

definition lhm_copy_ctor :: "('k \<Rightarrow> nat) \<Rightarrow> addr \<Rightarrow> addr \<Rightarrow> ('k, 'v) store
    \<Rightarrow> ((error + unit) \<times> ('k, 'v) store) option" where
  "lhm_copy_ctor hasher this other s = do {
     OM \<leftarrow> objs s other;
     let s1 = set_obj this
       \<lparr>buckets = replicate (bucket_capacity OM) None, order_head = None, order_tail = None,
        bucket_capacity = bucket_capacity OM, num_elements = 0\<rparr> s;
     s2 \<leftarrow> init_empty this s1;
     copy_from hasher this other s2
   }"

definition lhm_assign :: "('k \<Rightarrow> nat) \<Rightarrow> addr \<Rightarrow> addr \<Rightarrow> ('k, 'v) store
    \<Rightarrow> ((error + unit) \<times> ('k, 'v) store) option" where
  "lhm_assign hasher this other s =
     (if this = other then Some (Inr (), s)
      else do {
        s1 \<leftarrow> lhm_clear this s;
        M1 \<leftarrow> objs s1 this;
        s2 \<leftarrow> delete_node (order_head M1) s1;
        s3 \<leftarrow> delete_node (order_tail M1) s2;
        OM \<leftarrow> objs s3 other;
        M3 \<leftarrow> objs s3 this;
        let s4 = set_obj this
          (M3\<lparr>buckets := replicate (bucket_capacity OM) None,
              bucket_capacity := bucket_capacity OM, num_elements := 0\<rparr>) s3;
        s5 \<leftarrow> init_empty this s4;
        copy_from hasher this other s5
      })"

text \<open>Iterating from \<^verbatim>\<open>begin()\<close> to \<^verbatim>\<open>end()\<close> and reading every entry.\<close>

partial_function (option) iterate_loop ::
  "addr \<Rightarrow> iterator \<Rightarrow> ('k, 'v) store \<Rightarrow> (error + ('k \<times> 'v) list) option" where
  "iterate_loop this it s = do {
     e \<leftarrow> lhm_end this s;
     if it = e then Some (Inr [])
     else do {
       r \<leftarrow> it_deref it s;
       case r of Inl err \<Rightarrow> Some (Inl err)
       | Inr p \<Rightarrow> do {
           kv \<leftarrow> ref_data s p;
           r1 \<leftarrow> it_pre_inc it s;
           case r1 of Inl err \<Rightarrow> Some (Inl err)
           | Inr it1 \<Rightarrow> do {
               r2 \<leftarrow> iterate_loop this it1 s;
               case r2 of Inl err \<Rightarrow> Some (Inl err) | Inr kvs \<Rightarrow> Some (Inr (kv # kvs))
             }
         }
     }
   }"

declare iterate_loop.simps [code]

definition iterate :: "addr \<Rightarrow> ('k, 'v) store \<Rightarrow> (error + ('k \<times> 'v) list) option" where
  "iterate this s = do { it \<leftarrow> lhm_begin this s; iterate_loop this it s }"

section \<open>Abstraction and invariant\<close>

text \<open>
  The heap is read field by field: each projection maps an address to the field's value,
  \<open>None\<close> where nothing is allocated (for \<open>nib\<close> and \<open>dat\<close> also where the object is a
  bare \<^verbatim>\<open>LinkNode\<close>).
\<close>

definition onx :: "(addr \<rightharpoonup> ('k, 'v) link_node) \<Rightarrow> addr \<Rightarrow> ptr option" where
  "onx H a = map_option order_next (H a)"

definition opv :: "(addr \<rightharpoonup> ('k, 'v) link_node) \<Rightarrow> addr \<Rightarrow> ptr option" where
  "opv H a = map_option order_prev (H a)"

definition dat :: "(addr \<rightharpoonup> ('k, 'v) link_node) \<Rightarrow> addr \<Rightarrow> ('k \<times> 'v) option" where
  "dat H a = (case H a of None \<Rightarrow> None | Some n \<Rightarrow> data n)"

definition nib :: "(addr \<rightharpoonup> ('k, 'v) link_node) \<Rightarrow> addr \<Rightarrow> ptr option" where
  "nib H a = (case H a of None \<Rightarrow> None
     | Some n \<Rightarrow> (if data n = None then None else Some (next_in_bucket n)))"

text \<open>\<open>fpath f xs\<close>: following the link \<open>f\<close> from each element of \<open>xs\<close> gives the next one;
  \<open>bpath f xs\<close>: following \<open>f\<close> from each element gives the previous one.\<close>

fun fpath :: "(addr \<Rightarrow> ptr option) \<Rightarrow> addr list \<Rightarrow> bool" where
  "fpath f (a # b # r) = (f a = Some (Some b) \<and> fpath f (b # r))"
| "fpath f _ = True"

fun bpath :: "(addr \<Rightarrow> ptr option) \<Rightarrow> addr list \<Rightarrow> bool" where
  "bpath f (a # b # r) = (f b = Some (Some a) \<and> bpath f (b # r))"
| "bpath f _ = True"

text \<open>\<open>cseg f p xs q\<close>: starting at pointer \<open>p\<close>, the link \<open>f\<close> visits exactly the nodes \<open>xs\<close>
  and then arrives at \<open>q\<close>.  A bucket chain is a segment that ends in the null pointer.\<close>

fun cseg :: "(addr \<Rightarrow> ptr option) \<Rightarrow> ptr \<Rightarrow> addr list \<Rightarrow> ptr \<Rightarrow> bool" where
  "cseg f p [] q = (p = q)"
| "cseg f p (a # as) q = (p = Some a \<and> (case f a of None \<Rightarrow> False | Some r \<Rightarrow> cseg f r as q))"

definition chain :: "(addr \<Rightarrow> ptr option) \<Rightarrow> ptr \<Rightarrow> addr list \<Rightarrow> bool" where
  "chain f p cs = cseg f p cs None"

definition key_of :: "(addr \<rightharpoonup> ('k, 'v) link_node) \<Rightarrow> addr \<Rightarrow> 'k" where
  "key_of H a = fst (the (dat H a))"

text \<open>The entries stored in the nodes \<open>as\<close>, in that order.\<close>

definition entries :: "('k, 'v) store \<Rightarrow> addr list \<Rightarrow> ('k \<times> 'v) list" where
  "entries s as = map (\<lambda>a. the (dat (heap s) a)) as"

text \<open>
  \<open>linv hasher s this as\<close>: the object at \<open>this\<close> is a well-formed map whose live entry
  nodes, in the order of the order list, are \<open>as\<close>:
  the order list runs from the head sentinel through \<open>as\<close> to the tail sentinel, forwards by
  \<^verbatim>\<open>order_next\<close> and backwards by \<^verbatim>\<open>order_prev\<close>; the sentinels are bare link nodes and
  every node of \<open>as\<close> carries an entry; keys are pairwise distinct; the bucket array has
  \<^verbatim>\<open>bucket_capacity\<close> slots, a power of two from 16 on; \<^verbatim>\<open>num_elements\<close> is the number of
  entries and stays within the load factor; and the chain of bucket \<open>i\<close> holds exactly the
  entries whose key hashes to \<open>i\<close>.
\<close>

definition linv :: "('k \<Rightarrow> nat) \<Rightarrow> ('k, 'v) store \<Rightarrow> addr \<Rightarrow> addr list \<Rightarrow> bool" where
  "linv hasher s this as \<longleftrightarrow>
     (\<exists>M h t. objs s this = Some M \<and> order_head M = Some h \<and> order_tail M = Some t
        \<and> distinct (h # as @ [t]) \<and> (\<forall>a \<in> set (h # as @ [t]). a < brk s)
        \<and> fpath (onx (heap s)) (h # as @ [t]) \<and> bpath (opv (heap s)) (h # as @ [t])
        \<and> heap s h \<noteq> None \<and> heap s t \<noteq> None
        \<and> dat (heap s) h = None \<and> dat (heap s) t = None
        \<and> (\<forall>a \<in> set as. dat (heap s) a \<noteq> None)
        \<and> distinct (map (key_of (heap s)) as)
        \<and> length (buckets M) = bucket_capacity M
        \<and> (\<exists>j. bucket_capacity M = INIT_CAPACITY * 2 ^ j)
        \<and> num_elements M = length as
        \<and> 4 * length as \<le> 3 * bucket_capacity M
        \<and> (\<forall>i < bucket_capacity M. \<exists>cs. chain (nib (heap s)) (buckets M ! i) cs \<and> distinct cs
             \<and> set cs = {a \<in> set as. hasher (key_of (heap s) a) mod bucket_capacity M = i}))"

text \<open>The nodes a map owns: its two sentinels and its entries.\<close>

definition owned :: "('k, 'v) store \<Rightarrow> addr \<Rightarrow> addr list \<Rightarrow> addr set" where
  "owned s this as = set as \<union> (case objs s this of None \<Rightarrow> {}
     | Some M \<Rightarrow> set_option (order_head M) \<union> set_option (order_tail M))"

text \<open>\<open>modifies_only s this as s'\<close>: going from \<open>s\<close> to \<open>s'\<close>, nothing allocated in \<open>s\<close> has
  changed except the object \<open>this\<close> and the nodes it owns.\<close>

definition modifies_only :: "('k, 'v) store \<Rightarrow> addr \<Rightarrow> addr list \<Rightarrow> ('k, 'v) store \<Rightarrow> bool" where
  "modifies_only s this as s' \<longleftrightarrow>
     brk s \<le> brk s' \<and> (\<forall>m. m \<noteq> this \<longrightarrow> objs s' m = objs s m)
     \<and> (\<forall>x. x < brk s \<and> x \<notin> owned s this as \<longrightarrow> heap s' x = heap s x)"

section \<open>Client programs\<close>

text \<open>A sequence of \<^verbatim>\<open>insert\<close> calls on one map; the result lists the flags returned.\<close>

fun insert_all :: "('k \<Rightarrow> nat) \<Rightarrow> addr \<Rightarrow> ('k \<times> 'v) list \<Rightarrow> ('k, 'v) store
    \<Rightarrow> (bool list \<times> ('k, 'v) store) option" where
  "insert_all hasher this [] s = Some ([], s)"
| "insert_all hasher this (kv # kvs) s = do {
     (r, s1) \<leftarrow> lhm_insert hasher this kv s;
     (bs, s2) \<leftarrow> insert_all hasher this kvs s1;
     Some (snd r # bs, s2)
   }"

text \<open>
  A history of calls \<^verbatim>\<open>m.insert({k, v})\<close> and \<^verbatim>\<open>m.erase(m.find(k))\<close> on one map.
  \<open>run_ops\<close> executes it and counts the \<^verbatim>\<open>insert\<close> calls that added an entry and the
  \<^verbatim>\<open>erase\<close> calls that removed one (an \<^verbatim>\<open>erase\<close> that throws leaves the map as it is).
\<close>

datatype ('k, 'v) op = Insert 'k 'v | Erase 'k

fun run_ops :: "('k \<Rightarrow> nat) \<Rightarrow> addr \<Rightarrow> ('k, 'v) op list \<Rightarrow> ('k, 'v) store
    \<Rightarrow> (nat \<times> nat \<times> ('k, 'v) store) option" where
  "run_ops hasher this [] s = Some (0, 0, s)"
| "run_ops hasher this (Insert k v # ops) s = do {
     (r, s1) \<leftarrow> lhm_insert hasher this (k, v) s;
     (i, e, s2) \<leftarrow> run_ops hasher this ops s1;
     Some ((if snd r then 1 else 0) + i, e, s2)
   }"
| "run_ops hasher this (Erase k # ops) s = do {
     it \<leftarrow> lhm_find hasher this k s;
     (r, s1) \<leftarrow> lhm_erase hasher this it s;
     (i, e, s2) \<leftarrow> run_ops hasher this ops s1;
     Some (i, (case r of Inl _ \<Rightarrow> 0 | Inr _ \<Rightarrow> 1) + e, s2)
   }"

text \<open>The keys that a history ever passed to \<^verbatim>\<open>insert\<close>.\<close>

fun inserted_keys :: "('k, 'v) op list \<Rightarrow> 'k list" where
  "inserted_keys [] = []"
| "inserted_keys (Insert k v # ops) = k # inserted_keys ops"
| "inserted_keys (Erase k # ops) = inserted_keys ops"

text \<open>
  The mutating calls a client can make on one map: \<^verbatim>\<open>m.insert({k, v})\<close>, \<^verbatim>\<open>m.erase(pos)\<close>,
  \<^verbatim>\<open>m.clear()\<close>, \<^verbatim>\<open>m[k] = v\<close> and \<^verbatim>\<open>m.at(k) = v\<close>.  A call that throws leaves the store as
  it is.
\<close>

datatype ('k, 'v) mutation =
  M_insert 'k 'v | M_erase iterator | M_clear | M_index_assign 'k 'v | M_at_assign 'k 'v

fun apply_mut :: "('k \<Rightarrow> nat) \<Rightarrow> 'v \<Rightarrow> addr \<Rightarrow> ('k, 'v) mutation \<Rightarrow> ('k, 'v) store
    \<Rightarrow> ('k, 'v) store option" where
  "apply_mut hasher dflt this (M_insert k v) s = map_option snd (lhm_insert hasher this (k, v) s)"
| "apply_mut hasher dflt this (M_erase pos) s = map_option snd (lhm_erase hasher this pos s)"
| "apply_mut hasher dflt this M_clear s = lhm_clear this s"
| "apply_mut hasher dflt this (M_index_assign k v) s = do {
     (p, s1) \<leftarrow> lhm_index hasher dflt this k s;
     assign_second p v s1
   }"
| "apply_mut hasher dflt this (M_at_assign k v) s = do {
     r \<leftarrow> lhm_at hasher this k s;
     case r of Inl e \<Rightarrow> Some s | Inr p \<Rightarrow> assign_second p v s
   }"

text \<open>The states of a map that is default-constructed and then only mutated through
  these calls.\<close>

inductive reachable :: "('k \<Rightarrow> nat) \<Rightarrow> 'v \<Rightarrow> addr \<Rightarrow> ('k, 'v) store \<Rightarrow> bool"
  for hasher :: "'k \<Rightarrow> nat" and dflt :: 'v and this :: addr where
  constructed: "lhm_ctor this s0 = Some s \<Longrightarrow> reachable hasher dflt this s"
| mutated: "reachable hasher dflt this s \<Longrightarrow> apply_mut hasher dflt this u s = Some s'
     \<Longrightarrow> reachable hasher dflt this s'"

text \<open>Two well-formed maps in one store that share no node.\<close>

definition separate :: "('k \<Rightarrow> nat) \<Rightarrow> ('k, 'v) store \<Rightarrow> addr \<Rightarrow> addr list \<Rightarrow> addr \<Rightarrow> addr list \<Rightarrow> bool" where
  "separate hasher s this as other bs \<longleftrightarrow>
     this \<noteq> other \<and> linv hasher s this as \<and> linv hasher s other bs
     \<and> owned s this as \<inter> owned s other bs = {}"

subsection \<open>Example stores\<close>

definition empty_store :: "(nat, nat) store" where
  "empty_store = \<lparr>heap = Map.empty, objs = Map.empty, brk = 0\<rparr>"

text \<open>A freshly constructed map at object address 100: sentinels at 0 and 1.\<close>

definition fresh_store :: "(nat, nat) store" where
  "fresh_store = \<lparr>heap = [0 \<mapsto> LinkNode\<lparr>order_next := Some 1\<rparr>, 1 \<mapsto> LinkNode\<lparr>order_prev := Some 0\<rparr>],
     objs = [100 \<mapsto> \<lparr>buckets = replicate 16 None, order_head = Some 0, order_tail = Some 1,
                      bucket_capacity = 16, num_elements = 0\<rparr>],
     brk = 2\<rparr>"

text \<open>The same map after \<^verbatim>\<open>insert({7, 70})\<close> under the identity hash: the entry is node 2,
  in bucket 7.\<close>

definition one_store :: "(nat, nat) store" where
  "one_store = \<lparr>heap = [0 \<mapsto> LinkNode\<lparr>order_next := Some 2\<rparr>,
                         1 \<mapsto> LinkNode\<lparr>order_prev := Some 2\<rparr>,
                         2 \<mapsto> (Node 7 70)\<lparr>order_prev := Some 0, order_next := Some 1\<rparr>],
     objs = [100 \<mapsto> \<lparr>buckets = (replicate 16 None)[7 := Some 2], order_head = Some 0,
                      order_tail = Some 1, bucket_capacity = 16, num_elements = 1\<rparr>],
     brk = 3\<rparr>"

section \<open>Properties\<close>

lemma lhm_ctor_empty_store: "lhm_ctor 100 empty_store = Some fresh_store"
  by (simp add: lhm_ctor_def init_empty_def set_obj_def new_node_def set_order_next_def
      set_order_prev_def empty_store_def fresh_store_def INIT_CAPACITY_def LinkNode_def)

subsection \<open>Paths and chains\<close>

lemma fpath_append: "fpath f (xs @ y # ys) = (fpath f (xs @ [y]) \<and> fpath f (y # ys))"
  by (induction f xs rule: fpath.induct) (auto simp: )

lemma bpath_append: "bpath f (xs @ y # ys) = (bpath f (xs @ [y]) \<and> bpath f (y # ys))"
  by (induction f xs rule: bpath.induct) auto

lemma fpath_cong: "(\<forall>a \<in> set (butlast xs). f' a = f a) \<Longrightarrow> fpath f' xs = fpath f xs"
  by (induction f xs rule: fpath.induct) auto

lemma bpath_cong: "(\<forall>a \<in> set (tl xs). f' a = f a) \<Longrightarrow> bpath f' xs = bpath f xs"
  by (induction f xs rule: bpath.induct) auto

lemma cseg_cong: "(\<forall>a \<in> set xs. f' a = f a) \<Longrightarrow> cseg f' p xs q = cseg f p xs q"
  by (induction xs arbitrary: p) (auto split: option.splits)

lemma chain_cong: "(\<forall>a \<in> set xs. f' a = f a) \<Longrightarrow> chain f' p xs = chain f p xs"
  by (simp add: chain_def cseg_cong)

lemma cseg_append:
  "cseg f p (xs @ ys) q = (\<exists>r. cseg f p xs r \<and> cseg f r ys q)"
  by (induction xs arbitrary: p) (auto split: option.splits)

lemma chain_Nil [simp]: "chain f p [] = (p = None)"
  by (simp add: chain_def)

lemma chain_Cons: "chain f p (a # as) = (p = Some a \<and> (\<exists>r. f a = Some r \<and> chain f r as))"
  by (auto simp: chain_def split: option.splits)

lemma chain_None [simp]: "chain f None cs = (cs = [])"
  by (cases cs) (auto simp: chain_def)

subsection \<open>Projections\<close>

lemma nib_SomeD: "nib H a = Some q \<Longrightarrow> \<exists>n. H a = Some n \<and> data n \<noteq> None \<and> next_in_bucket n = q"
  by (auto simp: nib_def split: option.splits if_splits)

lemma dat_SomeD: "dat H a = Some kv \<Longrightarrow> \<exists>n. H a = Some n \<and> data n = Some kv"
  by (auto simp: dat_def split: option.splits)

lemma onx_SomeD: "onx H a = Some q \<Longrightarrow> \<exists>n. H a = Some n \<and> order_next n = q"
  by (auto simp: onx_def)

lemma opv_SomeD: "opv H a = Some q \<Longrightarrow> \<exists>n. H a = Some n \<and> order_prev n = q"
  by (auto simp: opv_def)

lemma nib_dat: "nib H a \<noteq> None \<longleftrightarrow> dat H a \<noteq> None"
  by (auto simp: nib_def dat_def split: option.splits)

subsection \<open>find\<close>

lemma find_loop_chain:
  assumes "chain (nib (heap s)) p cs"
  shows "find_loop s this key p =
     (case List.find (\<lambda>a. key_of (heap s) a = key) cs of
        None \<Rightarrow> lhm_end this s
      | Some a \<Rightarrow> Some \<lparr>node = Some a, map_ptr = Some this\<rparr>)"
  using assms
proof (induction cs arbitrary: p)
  case Nil
  then show ?case by (subst find_loop.simps) simp
next
  case (Cons a cs)
  from Cons.prems obtain r where p: "p = Some a" and r: "nib (heap s) a = Some r"
    and c: "chain (nib (heap s)) r cs"
    by (auto simp: chain_Cons)
  from nib_SomeD[OF r] obtain n kv where n: "heap s a = Some n" "data n = Some kv" "next_in_bucket n = r"
    by auto
  have k: "key_of (heap s) a = fst kv"
    by (simp add: key_of_def dat_def n)
  show ?case
    by (subst find_loop.simps) (simp add: p load_Node_def load_def n k Cons.IH[OF c])
qed

subsection \<open>Consequences of the invariant\<close>

lemma linvE:
  assumes "linv hasher s this as"
  obtains M h t where "objs s this = Some M" "order_head M = Some h" "order_tail M = Some t"
    "distinct (h # as @ [t])" "\<forall>a \<in> set (h # as @ [t]). a < brk s"
    "fpath (onx (heap s)) (h # as @ [t])" "bpath (opv (heap s)) (h # as @ [t])"
    "heap s h \<noteq> None" "heap s t \<noteq> None"
    "dat (heap s) h = None" "dat (heap s) t = None"
    "\<forall>a \<in> set as. dat (heap s) a \<noteq> None"
    "distinct (map (key_of (heap s)) as)"
    "length (buckets M) = bucket_capacity M"
    "\<exists>j. bucket_capacity M = INIT_CAPACITY * 2 ^ j"
    "num_elements M = length as"
    "4 * length as \<le> 3 * bucket_capacity M"
    "\<forall>i < bucket_capacity M. \<exists>cs. chain (nib (heap s)) (buckets M ! i) cs \<and> distinct cs
             \<and> set cs = {a \<in> set as. hasher (key_of (heap s) a) mod bucket_capacity M = i}"
  using assms unfolding linv_def by blast

lemma capacity_pos: "\<exists>j. c = INIT_CAPACITY * 2 ^ j \<Longrightarrow> 0 < (c::nat)"
  by (auto simp: INIT_CAPACITY_def)

lemma find_distinct_key:
  assumes "distinct (map f as)" "set cs \<subseteq> set as" "a \<in> set cs"
  shows "List.find (\<lambda>x. f x = f a) cs = Some a"
proof -
  from assms(3) obtain x where x: "List.find (\<lambda>x. f x = f a) cs = Some x"
    by (cases "List.find (\<lambda>x. f x = f a) cs") (auto simp: find_None_iff)
  then have "f x = f a" "x \<in> set cs"
    by (auto simp: find_Some_iff)
  with assms have "x = a"
    by (meson distinct_map inj_onD subsetD)
  with x show ?thesis by simp
qed

lemma lhm_end_linv:
  assumes "objs s this = Some M"
  shows "lhm_end this s = Some \<lparr>node = order_tail M, map_ptr = Some this\<rparr>"
  by (simp add: lhm_end_def assms)

lemma lhm_find_present:
  assumes inv: "linv hasher s this as" and a: "a \<in> set as"
  shows "lhm_find hasher this (key_of (heap s) a) s = Some \<lparr>node = Some a, map_ptr = Some this\<rparr>"
proof -
  from inv obtain M where M: "objs s this = Some M"
    and len: "length (buckets M) = bucket_capacity M"
    and cap: "\<exists>j. bucket_capacity M = INIT_CAPACITY * 2 ^ j"
    and keys: "distinct (map (key_of (heap s)) as)"
    and ch: "\<forall>i < bucket_capacity M. \<exists>cs. chain (nib (heap s)) (buckets M ! i) cs \<and> distinct cs
             \<and> set cs = {a \<in> set as. hasher (key_of (heap s) a) mod bucket_capacity M = i}"
    by (rule linvE)
  let ?k = "key_of (heap s) a"
  let ?i = "hasher ?k mod bucket_capacity M"
  have pos: "0 < bucket_capacity M" using cap by (rule capacity_pos)
  then have i: "?i < bucket_capacity M" by simp
  with ch obtain cs where cs: "chain (nib (heap s)) (buckets M ! ?i) cs"
    and set_cs: "set cs = {a \<in> set as. hasher (key_of (heap s) a) mod bucket_capacity M = ?i}"
    by blast
  from a set_cs have "a \<in> set cs" "set cs \<subseteq> set as" by auto
  with keys have "List.find (\<lambda>x. key_of (heap s) x = ?k) cs = Some a"
    by (intro find_distinct_key) auto
  with find_loop_chain[OF cs, of this ?k] pos i show ?thesis
    by (simp add: lhm_find_def M get_bucket_index_def nth_opt_def len)
qed

lemma lhm_find_absent:
  assumes inv: "linv hasher s this as" and k: "key \<notin> key_of (heap s) ` set as"
  shows "lhm_find hasher this key s = lhm_end this s"
proof -
  from inv obtain M where M: "objs s this = Some M"
    and len: "length (buckets M) = bucket_capacity M"
    and cap: "\<exists>j. bucket_capacity M = INIT_CAPACITY * 2 ^ j"
    and ch: "\<forall>i < bucket_capacity M. \<exists>cs. chain (nib (heap s)) (buckets M ! i) cs \<and> distinct cs
             \<and> set cs = {a \<in> set as. hasher (key_of (heap s) a) mod bucket_capacity M = i}"
    by (rule linvE)
  let ?i = "hasher key mod bucket_capacity M"
  have pos: "0 < bucket_capacity M" using cap by (rule capacity_pos)
  then have i: "?i < bucket_capacity M" by simp
  with ch obtain cs where cs: "chain (nib (heap s)) (buckets M ! ?i) cs"
    and set_cs: "set cs = {a \<in> set as. hasher (key_of (heap s) a) mod bucket_capacity M = ?i}"
    by blast
  from k set_cs have "List.find (\<lambda>x. key_of (heap s) x = key) cs = None"
    by (auto simp: find_None_iff)
  with find_loop_chain[OF cs, of this key] pos i show ?thesis
    by (simp add: lhm_find_def M get_bucket_index_def nth_opt_def len)
qed

lemma entries_key_image:
  assumes "\<forall>a \<in> set as. dat (heap s) a \<noteq> None"
  shows "fst ` set (entries s as) = key_of (heap s) ` set as"
  by (auto simp: entries_def key_of_def image_iff)

lemma entries_memD:
  assumes "kv \<in> set (entries s as)" "\<forall>a \<in> set as. dat (heap s) a \<noteq> None"
  shows "\<exists>a \<in> set as. dat (heap s) a = Some kv"
  using assms by (auto simp: entries_def)

lemma linv_tail_notin:
  assumes "linv hasher s this as" "objs s this = Some M" "a \<in> set as"
  shows "order_tail M \<noteq> Some a" "order_head M \<noteq> Some a"
  using assms by (auto elim!: linvE)

subsection \<open>insert of a new key\<close>

lemma fpath_snoc2: "fpath f (xs @ [p, a]) = (fpath f (xs @ [p]) \<and> f p = Some (Some a))"
  using fpath_append[of f xs p "[a]"] by simp

lemma bpath_snoc2: "bpath f (xs @ [p, a]) = (bpath f (xs @ [p]) \<and> f a = Some (Some p))"
  using bpath_append[of f xs p "[a]"] by simp

lemma fpath_snoc3:
  "fpath f (xs @ [p, a, t]) = (fpath f (xs @ [p]) \<and> f p = Some (Some a) \<and> f a = Some (Some t))"
  using fpath_append[of f xs p "[a, t]"] by simp

lemma bpath_snoc3:
  "bpath f (xs @ [p, a, t]) = (bpath f (xs @ [p]) \<and> f a = Some (Some p) \<and> f t = Some (Some a))"
  using bpath_append[of f xs p "[a, t]"] by simp

lemma insert_new_run:
  assumes M: "objs s this = Some M" and t: "order_tail M = Some t"
    and nt: "heap s t = Some n_t" and p: "order_prev n_t = Some p"
    and np: "heap s p = Some n_p"
    and ne: "brk s \<noteq> t" "brk s \<noteq> p" "p \<noteq> t"
    and cap: "0 < bucket_capacity M" "length (buckets M) = bucket_capacity M"
  shows "insert_new hasher this (k, v) s = Some ((\<lparr>node = Some (brk s), map_ptr = Some this\<rparr>, True),
     s\<lparr>heap := (heap s)(brk s \<mapsto> \<lparr>order_prev = Some p, order_next = Some t, data = Some (k, v),
                                  next_in_bucket = buckets M ! (hasher k mod bucket_capacity M)\<rparr>,
                        p \<mapsto> n_p\<lparr>order_next := Some (brk s)\<rparr>,
                        t \<mapsto> n_t\<lparr>order_prev := Some (brk s)\<rparr>),
       objs := (objs s)(this \<mapsto> M\<lparr>buckets := (buckets M)[hasher k mod bucket_capacity M := Some (brk s)],
                                  num_elements := num_elements M + 1\<rparr>),
       brk := Suc (brk s)\<rparr>)"
  using assms
  by (simp add: insert_new_def new_node_def Node_def get_bucket_index_def nth_opt_def
      set_next_in_bucket_def load_Node_def load_def set_obj_def set_order_prev_def set_order_next_def
      fun_upd_twist Let_def)

lemma linv_last_facts:
  assumes "distinct (h # as @ [t])" "fpath (onx H) (h # as @ [t])" "bpath (opv H) (h # as @ [t])"
  shows "opv H t = Some (Some (last (h # as)))" "onx H (last (h # as)) = Some (Some t)"
    "last (h # as) \<noteq> t" "last (h # as) \<in> set (h # as)"
proof -
  obtain pre where pre: "h # as = pre @ [last (h # as)]"
    by (metis append_butlast_last_id list.discI)
  have full: "h # as @ [t] = pre @ [last (h # as), t]"
    using pre by (metis append_Cons append_Nil append_assoc)
  from assms(3) show "opv H t = Some (Some (last (h # as)))"
    unfolding full bpath_snoc2 by simp
  from assms(2) show "onx H (last (h # as)) = Some (Some t)"
    unfolding full fpath_snoc2 by simp
  show "last (h # as) \<in> set (h # as)" by simp
  with assms(1) show "last (h # as) \<noteq> t" by auto
qed

lemma insert_new_linv:
  assumes inv: "linv hasher s this as"
    and M: "objs s this = Some M"
    and fresh: "k \<notin> key_of (heap s) ` set as"
    and room: "4 * (length as + 1) \<le> 3 * bucket_capacity M"
  shows "\<exists>s' M'. insert_new hasher this (k, v) s
          = Some ((\<lparr>node = Some (brk s), map_ptr = Some this\<rparr>, True), s')
      \<and> linv hasher s' this (as @ [brk s])
      \<and> dat (heap s') = (dat (heap s))(brk s := Some (k, v))
      \<and> modifies_only s this as s'
      \<and> brk s' = Suc (brk s)
      \<and> objs s' this = Some M' \<and> bucket_capacity M' = bucket_capacity M
      \<and> order_head M' = order_head M \<and> order_tail M' = order_tail M"
proof -
  let ?H = "heap s"
  from inv M obtain h t where h: "order_head M = Some h" and t: "order_tail M = Some t"
    and dist: "distinct (h # as @ [t])" and lt: "\<forall>a \<in> set (h # as @ [t]). a < brk s"
    and fp: "fpath (onx ?H) (h # as @ [t])" and bp: "bpath (opv ?H) (h # as @ [t])"
    and alloc: "heap s h \<noteq> None" "heap s t \<noteq> None"
    and sent: "dat ?H h = None" "dat ?H t = None"
    and ent: "\<forall>a \<in> set as. dat ?H a \<noteq> None"
    and keys: "distinct (map (key_of ?H) as)"
    and len: "length (buckets M) = bucket_capacity M"
    and pow: "\<exists>j. bucket_capacity M = INIT_CAPACITY * 2 ^ j"
    and num: "num_elements M = length as"
    and ch: "\<forall>i < bucket_capacity M. \<exists>cs. chain (nib ?H) (buckets M ! i) cs \<and> distinct cs
             \<and> set cs = {a \<in> set as. hasher (key_of ?H a) mod bucket_capacity M = i}"
    by (auto elim!: linvE)
  define a where "a = brk s"
  define p where "p = last (h # as)"
  define idx where "idx = hasher k mod bucket_capacity M"
  have pos: "0 < bucket_capacity M" using pow by (rule capacity_pos)
  have idx: "idx < bucket_capacity M" using pos by (simp add: idx_def)
  note lf = linv_last_facts[OF dist fp bp, folded p_def]
  from lf(1) obtain n_t where nt: "?H t = Some n_t" "order_prev n_t = Some p"
    by (auto dest: opv_SomeD)
  from lf(2) obtain n_p where np: "?H p = Some n_p" "order_next n_p = Some t"
    by (auto dest: onx_SomeD)
  have pt: "p \<noteq> t" by (rule lf(3))
  have p_in: "p \<in> set (h # as)" by (rule lf(4))
  have a_new: "a \<notin> set (h # as @ [t])" using lt by (auto simp: a_def)
  then have at: "a \<noteq> t" and ap: "a \<noteq> p" and ah: "a \<noteq> h" and a_as: "a \<notin> set as"
    using p_in by auto
  define M' where "M' = M\<lparr>buckets := (buckets M)[idx := Some a], num_elements := num_elements M + 1\<rparr>"
  define s' where "s' = s\<lparr>heap := ?H(a \<mapsto> \<lparr>order_prev = Some p, order_next = Some t, data = Some (k, v),
                                  next_in_bucket = buckets M ! idx\<rparr>,
                        p \<mapsto> n_p\<lparr>order_next := Some a\<rparr>,
                        t \<mapsto> n_t\<lparr>order_prev := Some a\<rparr>),
       objs := (objs s)(this \<mapsto> M'), brk := Suc a\<rparr>"
  have run: "insert_new hasher this (k, v) s = Some ((\<lparr>node = Some (brk s), map_ptr = Some this\<rparr>, True), s')"
    unfolding s'_def M'_def a_def idx_def
    by (rule insert_new_run[OF M t nt(1) nt(2) np(1) _ _ pt pos len]) (use at ap in \<open>auto simp: a_def\<close>)
  let ?H' = "heap s'"
  have onx': "onx ?H' = (onx ?H)(a := Some (Some t), p := Some (Some a))"
    using at ap pt by (auto simp: s'_def onx_def nt fun_eq_iff)
  have opv': "opv ?H' = (opv ?H)(a := Some (Some p), t := Some (Some a))"
    using at ap pt by (auto simp: s'_def opv_def np fun_eq_iff)
  have dat': "dat ?H' = (dat ?H)(a := Some (k, v))"
    using at ap pt by (auto simp: s'_def dat_def np nt fun_eq_iff)
  have nib': "nib ?H' = (nib ?H)(a := Some (buckets M ! idx))"
    using at ap pt by (auto simp: s'_def nib_def np nt fun_eq_iff)
  have key': "\<And>x. key_of ?H' x = (if x = a then k else key_of ?H x)"
    by (simp add: key_of_def dat')
  have objs': "objs s' this = Some M'" by (simp add: s'_def)
  have brk': "brk s' = Suc a" by (simp add: s'_def)
  obtain pre where pre: "h # as = pre @ [p]"
    unfolding p_def by (metis append_butlast_last_id list.discI)
  have full: "h # as @ [t] = pre @ [p, t]"
    using pre by (metis append_Cons append_Nil append_assoc)
  have full': "h # (as @ [a]) @ [t] = (pre @ [p]) @ [a, t]"
    using pre by (metis append_Cons append_Nil append_assoc)
  have p_pre: "p \<notin> set pre" "t \<notin> set pre" "a \<notin> set pre"
    using dist a_new unfolding full by auto
  have fp': "fpath (onx ?H') (h # (as @ [a]) @ [t])"
  proof -
    have "fpath (onx ?H') (pre @ [p]) = fpath (onx ?H) (pre @ [p])"
      by (rule fpath_cong) (use p_pre in \<open>auto simp: onx'\<close>)
    moreover have "fpath (onx ?H) (pre @ [p])"
      using fp unfolding full fpath_snoc2 by simp
    ultimately show ?thesis
      unfolding full' using ap at by (simp add: fpath_snoc3 onx')
  qed
  have bp': "bpath (opv ?H') (h # (as @ [a]) @ [t])"
  proof -
    have "bpath (opv ?H') (pre @ [p]) = bpath (opv ?H) (pre @ [p])"
    proof (rule bpath_cong, intro ballI)
      fix x assume "x \<in> set (tl (pre @ [p]))"
      then have "x \<in> set (pre @ [p])" by (cases "pre @ [p]") auto
      then have "x \<noteq> a" "x \<noteq> t" using p_pre ap pt by auto
      then show "opv ?H' x = opv ?H x" by (simp add: opv')
    qed
    moreover have "bpath (opv ?H) (pre @ [p])"
      using bp unfolding full bpath_snoc2 by simp
    ultimately show ?thesis
      unfolding full' using ap at pt by (simp add: bpath_snoc3 opv')
  qed
  have chains: "\<forall>i < bucket_capacity M'. \<exists>cs. chain (nib ?H') (buckets M' ! i) cs \<and> distinct cs
             \<and> set cs = {x \<in> set (as @ [a]). hasher (key_of ?H' x) mod bucket_capacity M' = i}"
  proof (intro allI impI)
    fix i assume "i < bucket_capacity M'"
    then have i: "i < bucket_capacity M" by (simp add: M'_def)
    with ch obtain cs where cs: "chain (nib ?H) (buckets M ! i) cs" "distinct cs"
      "set cs = {a \<in> set as. hasher (key_of ?H a) mod bucket_capacity M = i}"
      by blast
    have a_cs: "a \<notin> set cs" using cs(3) a_as by auto
    have cs': "chain (nib ?H') (buckets M ! i) cs"
      using cs(1) a_cs by (subst chain_cong[of cs _ "nib ?H"]) (auto simp: nib')
    show "\<exists>cs. chain (nib ?H') (buckets M' ! i) cs \<and> distinct cs
             \<and> set cs = {x \<in> set (as @ [a]). hasher (key_of ?H' x) mod bucket_capacity M' = i}"
    proof (cases "i = idx")
      case True
      have "chain (nib ?H') (buckets M' ! i) (a # cs)"
        using cs' True idx len by (simp add: chain_Cons M'_def nib')
      moreover have "distinct (a # cs)" using cs(2) a_cs by simp
      moreover have "set (a # cs) = {x \<in> set (as @ [a]). hasher (key_of ?H' x) mod bucket_capacity M' = i}"
        using cs(3) True a_as by (auto simp: key' M'_def idx_def)
      ultimately show ?thesis by blast
    next
      case False
      have "chain (nib ?H') (buckets M' ! i) cs"
        using cs' False by (simp add: M'_def)
      moreover have "set cs = {x \<in> set (as @ [a]). hasher (key_of ?H' x) mod bucket_capacity M' = i}"
        using cs(3) False a_as by (auto simp: key' M'_def idx_def)
      ultimately show ?thesis using cs(2) by blast
    qed
  qed
  have keys': "distinct (map (key_of ?H') (as @ [a]))"
  proof -
    have eq: "map (key_of ?H') as = map (key_of ?H) as"
      using a_as by (auto simp: key')
    have "key_of ?H' a \<notin> set (map (key_of ?H) as)"
      using fresh by (simp add: key')
    with keys show ?thesis by (simp add: eq)
  qed
  have inv': "linv hasher s' this (as @ [a])"
    unfolding linv_def
  proof (rule exI[of _ M'], rule exI[of _ h], rule exI[of _ t], intro conjI)
    show "objs s' this = Some M'" by (rule objs')
    show "order_head M' = Some h" "order_tail M' = Some t" by (simp_all add: M'_def h t)
    show "distinct (h # (as @ [a]) @ [t])" using dist a_new by auto
    show "\<forall>x \<in> set (h # (as @ [a]) @ [t]). x < brk s'" using lt by (auto simp: brk' a_def less_Suc_eq)
    show "fpath (onx ?H') (h # (as @ [a]) @ [t])" by (rule fp')
    show "bpath (opv ?H') (h # (as @ [a]) @ [t])" by (rule bp')
    show "?H' h \<noteq> None" using alloc by (auto simp: s'_def)
    show "?H' t \<noteq> None" by (auto simp: s'_def)
    show "dat ?H' h = None" "dat ?H' t = None" using sent ah at by (simp_all add: dat')
    show "\<forall>x \<in> set (as @ [a]). dat ?H' x \<noteq> None" using ent by (auto simp: dat')
    show "distinct (map (key_of ?H') (as @ [a]))" by (rule keys')
    show "length (buckets M') = bucket_capacity M'" using len by (simp add: M'_def)
    show "\<exists>j. bucket_capacity M' = INIT_CAPACITY * 2 ^ j" using pow by (simp add: M'_def)
    show "num_elements M' = length (as @ [a])" using num by (simp add: M'_def)
    show "4 * length (as @ [a]) \<le> 3 * bucket_capacity M'" using room by (simp add: M'_def)
    show "\<forall>i < bucket_capacity M'. \<exists>cs. chain (nib ?H') (buckets M' ! i) cs \<and> distinct cs
             \<and> set cs = {x \<in> set (as @ [a]). hasher (key_of ?H' x) mod bucket_capacity M' = i}"
      by (rule chains)
  qed
  have mo: "modifies_only s this as s'"
    using p_in unfolding modifies_only_def owned_def
    by (auto simp: s'_def a_def M h t)
  show ?thesis
    using run inv' dat' mo brk' objs' unfolding a_def[symmetric]
    by (intro exI[of _ s'] exI[of _ M']) (simp add: M'_def)
qed

subsection \<open>rehash\<close>

lemma set_next_in_bucket_run:
  assumes "heap s a = Some n" "data n \<noteq> None"
  shows "set_next_in_bucket (Some a) q s = Some (s\<lparr>heap := (heap s)(a \<mapsto> n\<lparr>next_in_bucket := q\<rparr>)\<rparr>)"
  using assms by (simp add: set_next_in_bucket_def load_Node_def load_def)

lemma rehash_loop_step:
  assumes n: "heap s a = Some n" "data n = Some kv" "order_next n = q"
    and at: "a \<noteq> t" and nc: "0 < nc" "length nb = nc"
  shows "rehash_loop hasher nc (Some t) nb (Some a) s
      = rehash_loop hasher nc (Some t) (nb[hasher (fst kv) mod nc := Some a]) q
          (s\<lparr>heap := (heap s)(a \<mapsto> n\<lparr>next_in_bucket := nb ! (hasher (fst kv) mod nc)\<rparr>)\<rparr>)"
  using nc
  by (subst rehash_loop.simps)
     (simp add: at load_Node_def load_def n nth_opt_def set_next_in_bucket_def)

lemma rehash_loop_spec:
  assumes "fpath (onx (heap s)) (rest @ [t])" "distinct (rest @ [t])"
    and "\<forall>a \<in> set rest. dat (heap s) a \<noteq> None"
    and "0 < nc" "length nb = nc"
    and "\<forall>i < nc. \<exists>cs. chain (nib (heap s)) (nb ! i) cs \<and> distinct cs
           \<and> set cs = {a \<in> set dn. hasher (key_of (heap s) a) mod nc = i}"
    and "set dn \<inter> set rest = {}"
  shows "\<exists>nb' s'. rehash_loop hasher nc (Some t) nb (Some (hd (rest @ [t]))) s = Some (nb', s')
     \<and> length nb' = nc
     \<and> (\<forall>i < nc. \<exists>cs. chain (nib (heap s')) (nb' ! i) cs \<and> distinct cs
           \<and> set cs = {a \<in> set (dn @ rest). hasher (key_of (heap s') a) mod nc = i})
     \<and> onx (heap s') = onx (heap s) \<and> opv (heap s') = opv (heap s) \<and> dat (heap s') = dat (heap s)
     \<and> dom (heap s') = dom (heap s)
     \<and> (\<forall>x. x \<notin> set rest \<longrightarrow> heap s' x = heap s x)
     \<and> objs s' = objs s \<and> brk s' = brk s"
  using assms
proof (induction rest arbitrary: s nb dn)
  case Nil
  then show ?case
    by (subst rehash_loop.simps) simp
next
  case (Cons a rest)
  let ?H = "heap s"
  from Cons.prems(3) obtain kv where kv: "dat ?H a = Some kv" by auto
  then obtain n where n: "?H a = Some n" "data n = Some kv"
    by (auto dest: dat_SomeD)
  define idx where "idx = hasher (fst kv) mod nc"
  have idx: "idx < nc" using Cons.prems(4) by (simp add: idx_def)
  define s1 where "s1 = s\<lparr>heap := ?H(a \<mapsto> n\<lparr>next_in_bucket := nb ! idx\<rparr>)\<rparr>"
  let ?H1 = "heap s1"
  have nxt: "onx ?H a = Some (Some (hd (rest @ [t])))"
    using Cons.prems(1) by (cases rest) auto
  then have on: "order_next n = Some (hd (rest @ [t]))"
    by (simp add: onx_def n)
  have at: "a \<noteq> t" using Cons.prems(2) by auto
  have onx1: "onx ?H1 = onx ?H" by (auto simp: s1_def onx_def n fun_eq_iff)
  have opv1: "opv ?H1 = opv ?H" by (auto simp: s1_def opv_def n fun_eq_iff)
  have dat1: "dat ?H1 = dat ?H" by (auto simp: s1_def dat_def n fun_eq_iff)
  have nib1: "nib ?H1 = (nib ?H)(a := Some (nb ! idx))" by (auto simp: s1_def nib_def n fun_eq_iff)
  have key1: "key_of ?H1 = key_of ?H" by (auto simp: key_of_def dat1 fun_eq_iff)
  have dom1: "dom ?H1 = dom ?H" using n by (auto simp: s1_def)
  have ka: "key_of ?H a = fst kv" by (simp add: key_of_def kv)
  have a_dn: "a \<notin> set dn" using Cons.prems(7) by auto
  have step: "rehash_loop hasher nc (Some t) nb (Some (hd ((a # rest) @ [t]))) s
      = rehash_loop hasher nc (Some t) (nb[idx := Some a]) (Some (hd (rest @ [t]))) s1"
    unfolding s1_def idx_def using rehash_loop_step[OF n on at Cons.prems(4,5)] by simp
  have ch1: "\<forall>i < nc. \<exists>cs. chain (nib ?H1) (nb[idx := Some a] ! i) cs \<and> distinct cs
           \<and> set cs = {x \<in> set (dn @ [a]). hasher (key_of ?H1 x) mod nc = i}"
  proof (intro allI impI)
    fix i assume i: "i < nc"
    with Cons.prems(6) obtain cs where cs: "chain (nib ?H) (nb ! i) cs" "distinct cs"
      "set cs = {a \<in> set dn. hasher (key_of ?H a) mod nc = i}"
      by blast
    have a_cs: "a \<notin> set cs" using cs(3) a_dn by auto
    have Pa: "hasher (key_of ?H1 a) mod nc = idx" by (simp add: key1 ka idx_def)
    have cs3: "set cs = {x \<in> set dn. hasher (key_of ?H1 x) mod nc = i}"
      using cs(3) by (simp add: key1)
    have cs': "chain (nib ?H1) (nb ! i) cs"
      using cs(1) a_cs by (subst chain_cong[of cs _ "nib ?H"]) (auto simp: nib1)
    show "\<exists>cs. chain (nib ?H1) (nb[idx := Some a] ! i) cs \<and> distinct cs
           \<and> set cs = {x \<in> set (dn @ [a]). hasher (key_of ?H1 x) mod nc = i}"
    proof (cases "i = idx")
      case True
      have "chain (nib ?H1) (nb[idx := Some a] ! i) (a # cs)"
        using cs' True idx Cons.prems(5) by (simp add: chain_Cons nib1)
      moreover have "distinct (a # cs)" using cs(2) a_cs by simp
      moreover have "set (a # cs) = {x \<in> set (dn @ [a]). hasher (key_of ?H1 x) mod nc = i}"
        using cs3 Pa True by auto
      ultimately show ?thesis by blast
    next
      case False
      have "chain (nib ?H1) (nb[idx := Some a] ! i) cs"
        using cs' False by simp
      moreover have "set cs = {x \<in> set (dn @ [a]). hasher (key_of ?H1 x) mod nc = i}"
        using cs3 Pa False by auto
      ultimately show ?thesis using cs(2) by blast
    qed
  qed
  have "\<exists>nb' s'. rehash_loop hasher nc (Some t) (nb[idx := Some a]) (Some (hd (rest @ [t]))) s1 = Some (nb', s')
     \<and> length nb' = nc
     \<and> (\<forall>i < nc. \<exists>cs. chain (nib (heap s')) (nb' ! i) cs \<and> distinct cs
           \<and> set cs = {x \<in> set ((dn @ [a]) @ rest). hasher (key_of (heap s') x) mod nc = i})
     \<and> onx (heap s') = onx ?H1 \<and> opv (heap s') = opv ?H1 \<and> dat (heap s') = dat ?H1
     \<and> dom (heap s') = dom ?H1
     \<and> (\<forall>x. x \<notin> set rest \<longrightarrow> heap s' x = heap s1 x)
     \<and> objs s' = objs s1 \<and> brk s' = brk s1"
  proof (rule Cons.IH)
    show "fpath (onx ?H1) (rest @ [t])"
      using Cons.prems(1) unfolding onx1 by (cases rest) auto
    show "distinct (rest @ [t])" using Cons.prems(2) by simp
    show "\<forall>a \<in> set rest. dat ?H1 a \<noteq> None" using Cons.prems(3) by (simp add: dat1)
    show "0 < nc" by fact
    show "length (nb[idx := Some a]) = nc" using Cons.prems(5) by simp
    show "\<forall>i < nc. \<exists>cs. chain (nib ?H1) (nb[idx := Some a] ! i) cs \<and> distinct cs
           \<and> set cs = {x \<in> set (dn @ [a]). hasher (key_of ?H1 x) mod nc = i}" by (rule ch1)
    show "set (dn @ [a]) \<inter> set rest = {}" using Cons.prems(2,7) by auto
  qed
  then obtain nb' s' where r: "rehash_loop hasher nc (Some t) (nb[idx := Some a]) (Some (hd (rest @ [t]))) s1 = Some (nb', s')"
     "length nb' = nc"
     "\<forall>i < nc. \<exists>cs. chain (nib (heap s')) (nb' ! i) cs \<and> distinct cs
           \<and> set cs = {x \<in> set ((dn @ [a]) @ rest). hasher (key_of (heap s') x) mod nc = i}"
     "onx (heap s') = onx ?H1" "opv (heap s') = opv ?H1" "dat (heap s') = dat ?H1"
     "dom (heap s') = dom ?H1"
     "\<forall>x. x \<notin> set rest \<longrightarrow> heap s' x = heap s1 x"
     "objs s' = objs s1" "brk s' = brk s1"
    by - (elim exE conjE, rule that; assumption)
  have "\<forall>x. x \<notin> set (a # rest) \<longrightarrow> heap s' x = ?H x"
    using r(8) by (auto simp: s1_def)
  moreover have "objs s' = objs s" "brk s' = brk s" using r(9,10) by (simp_all add: s1_def)
  moreover have "(dn @ [a]) @ rest = dn @ a # rest" by simp
  ultimately show ?case
    using r(1-7) unfolding step onx1 opv1 dat1 dom1
    by (intro exI[of _ nb'] exI[of _ s'] conjI) (simp_all only:)
qed

lemma key_of_cong: "dat H' = dat H \<Longrightarrow> key_of H' = key_of H"
  by (auto simp: key_of_def fun_eq_iff)

lemma fpath_tl: "fpath f (a # xs) \<Longrightarrow> fpath f xs"
  by (cases xs) auto

lemma fpath_hd: "fpath f (a # xs @ [t]) \<Longrightarrow> f a = Some (Some (hd (xs @ [t])))"
  by (cases xs) auto

lemma rehash_spec:
  assumes inv: "linv hasher s this as" and M: "objs s this = Some M"
  shows "\<exists>s' nb'. rehash hasher this s = Some s'
     \<and> objs s' = (objs s)(this \<mapsto> M\<lparr>buckets := nb', bucket_capacity := bucket_capacity M * 2\<rparr>)
     \<and> linv hasher s' this as
     \<and> onx (heap s') = onx (heap s) \<and> opv (heap s') = opv (heap s) \<and> dat (heap s') = dat (heap s)
     \<and> dom (heap s') = dom (heap s)
     \<and> (\<forall>x. x \<notin> set as \<longrightarrow> heap s' x = heap s x)
     \<and> brk s' = brk s"
proof -
  let ?H = "heap s"
  let ?nc = "bucket_capacity M * 2"
  from inv M obtain h t where h: "order_head M = Some h" and t: "order_tail M = Some t"
    and dist: "distinct (h # as @ [t])" and lt: "\<forall>a \<in> set (h # as @ [t]). a < brk s"
    and fp: "fpath (onx ?H) (h # as @ [t])" and bp: "bpath (opv ?H) (h # as @ [t])"
    and alloc: "heap s h \<noteq> None" "heap s t \<noteq> None"
    and sent: "dat ?H h = None" "dat ?H t = None"
    and ent: "\<forall>a \<in> set as. dat ?H a \<noteq> None"
    and keys: "distinct (map (key_of ?H) as)"
    and len: "length (buckets M) = bucket_capacity M"
    and pow: "\<exists>j. bucket_capacity M = INIT_CAPACITY * 2 ^ j"
    and num: "num_elements M = length as"
    and load: "4 * length as \<le> 3 * bucket_capacity M"
    by (auto elim!: linvE)
  have pos: "0 < ?nc" using capacity_pos[OF pow] by simp
  from fpath_hd[OF fp] obtain n_h where nh: "?H h = Some n_h" "order_next n_h = Some (hd (as @ [t]))"
    by (auto dest: onx_SomeD)
  have "\<exists>nb' s'. rehash_loop hasher ?nc (Some t) (replicate ?nc None) (Some (hd (as @ [t]))) s = Some (nb', s')
     \<and> length nb' = ?nc
     \<and> (\<forall>i < ?nc. \<exists>cs. chain (nib (heap s')) (nb' ! i) cs \<and> distinct cs
           \<and> set cs = {a \<in> set ([] @ as). hasher (key_of (heap s') a) mod ?nc = i})
     \<and> onx (heap s') = onx ?H \<and> opv (heap s') = opv ?H \<and> dat (heap s') = dat ?H
     \<and> dom (heap s') = dom ?H
     \<and> (\<forall>x. x \<notin> set as \<longrightarrow> heap s' x = heap s x)
     \<and> objs s' = objs s \<and> brk s' = brk s"
  proof (rule rehash_loop_spec)
    show "fpath (onx ?H) (as @ [t])" using fp by (rule fpath_tl)
    show "distinct (as @ [t])" using dist by simp
    show "\<forall>a \<in> set as. dat ?H a \<noteq> None" by (rule ent)
    show "0 < ?nc" by (rule pos)
    show "length (replicate ?nc (None::ptr)) = ?nc" by simp
    show "\<forall>i < ?nc. \<exists>cs. chain (nib ?H) (replicate ?nc None ! i) cs \<and> distinct cs
           \<and> set cs = {a \<in> set []. hasher (key_of ?H a) mod ?nc = i}"
      by simp
    show "set [] \<inter> set as = {}" by simp
  qed
  then obtain nb' s1 where r:
     "rehash_loop hasher ?nc (Some t) (replicate ?nc None) (Some (hd (as @ [t]))) s = Some (nb', s1)"
     "length nb' = ?nc"
     "\<forall>i < ?nc. \<exists>cs. chain (nib (heap s1)) (nb' ! i) cs \<and> distinct cs
           \<and> set cs = {a \<in> set ([] @ as). hasher (key_of (heap s1) a) mod ?nc = i}"
     "onx (heap s1) = onx ?H" "opv (heap s1) = opv ?H" "dat (heap s1) = dat ?H"
     "dom (heap s1) = dom ?H"
     "\<forall>x. x \<notin> set as \<longrightarrow> heap s1 x = heap s x"
     "objs s1 = objs s" "brk s1 = brk s"
    by - (elim exE conjE, rule that; assumption)
  define M' where "M' = M\<lparr>buckets := nb', bucket_capacity := ?nc\<rparr>"
  define s' where "s' = set_obj this M' s1"
  have run: "rehash hasher this s = Some s'"
    by (simp add: rehash_def M h t load_def nh r(1) r(9) Let_def s'_def M'_def)
  have heap': "heap s' = heap s1" by (simp add: s'_def set_obj_def)
  have key': "key_of (heap s') = key_of ?H" unfolding heap' using r(6) by (rule key_of_cong)
  have objs': "objs s' = (objs s)(this \<mapsto> M')" by (simp add: s'_def set_obj_def r(9))
  have brk': "brk s' = brk s" by (simp add: s'_def set_obj_def r(10))
  have inv': "linv hasher s' this as"
    unfolding linv_def
  proof (rule exI[of _ M'], rule exI[of _ h], rule exI[of _ t], intro conjI)
    show "objs s' this = Some M'" by (simp add: objs')
    show "order_head M' = Some h" "order_tail M' = Some t" by (simp_all add: M'_def h t)
    show "distinct (h # as @ [t])" by (rule dist)
    show "\<forall>x \<in> set (h # as @ [t]). x < brk s'" using lt by (simp add: brk')
    show "fpath (onx (heap s')) (h # as @ [t])" using fp by (simp add: heap' r(4))
    show "bpath (opv (heap s')) (h # as @ [t])" using bp by (simp add: heap' r(5))
    show "heap s' h \<noteq> None" "heap s' t \<noteq> None" using alloc dist r(8) by (auto simp: heap')
    show "dat (heap s') h = None" "dat (heap s') t = None" using sent by (simp_all add: heap' r(6))
    show "\<forall>x \<in> set as. dat (heap s') x \<noteq> None" using ent by (simp add: heap' r(6))
    show "distinct (map (key_of (heap s')) as)" using keys by (simp add: key')
    show "length (buckets M') = bucket_capacity M'" using r(2) by (simp add: M'_def)
    show "\<exists>j. bucket_capacity M' = INIT_CAPACITY * 2 ^ j"
    proof -
      from pow obtain j where "bucket_capacity M = INIT_CAPACITY * 2 ^ j" ..
      then have "bucket_capacity M' = INIT_CAPACITY * 2 ^ Suc j" by (simp add: M'_def)
      then show ?thesis ..
    qed
    show "num_elements M' = length as" using num by (simp add: M'_def)
    show "4 * length as \<le> 3 * bucket_capacity M'" using load by (simp add: M'_def)
    show "\<forall>i < bucket_capacity M'. \<exists>cs. chain (nib (heap s')) (buckets M' ! i) cs \<and> distinct cs
             \<and> set cs = {x \<in> set as. hasher (key_of (heap s') x) mod bucket_capacity M' = i}"
      using r(3) by (simp add: M'_def heap')
  qed
  show ?thesis
    using run inv' objs' brk' r(4-8) unfolding heap'[symmetric] M'_def
    by (intro exI[of _ s'] exI[of _ nb'] conjI) (simp_all only:)
qed

subsection \<open>insert\<close>

lemma lhm_insert_new:
  assumes inv: "linv hasher s this as" and M: "objs s this = Some M"
    and fresh: "k \<notin> key_of (heap s) ` set as"
  shows "\<exists>s' M'. lhm_insert hasher this (k, v) s
          = Some ((\<lparr>node = Some (brk s), map_ptr = Some this\<rparr>, True), s')
      \<and> linv hasher s' this (as @ [brk s])
      \<and> dat (heap s') = (dat (heap s))(brk s := Some (k, v))
      \<and> modifies_only s this as s'
      \<and> brk s' = Suc (brk s)
      \<and> objs s' this = Some M'
      \<and> bucket_capacity M' = (if 4 * (num_elements M + 1) > 3 * bucket_capacity M
                                then bucket_capacity M * 2 else bucket_capacity M)
      \<and> order_head M' = order_head M \<and> order_tail M' = order_tail M"
proof -
  from inv M have num: "num_elements M = length as"
    and load: "4 * length as \<le> 3 * bucket_capacity M"
    and pow: "\<exists>j. bucket_capacity M = INIT_CAPACITY * 2 ^ j"
    by (auto elim!: linvE)
  have find: "lhm_find hasher this k s = lhm_end this s"
    using inv fresh by (rule lhm_find_absent)
  have e: "lhm_end this s = Some \<lparr>node = order_tail M, map_ptr = Some this\<rparr>"
    using M by (rule lhm_end_linv)
  show ?thesis
  proof (cases "4 * (num_elements M + 1) > 3 * bucket_capacity M")
    case False
    then have room: "4 * (length as + 1) \<le> 3 * bucket_capacity M" by (simp add: num)
    have ins: "lhm_insert hasher this (k, v) s = insert_new hasher this (k, v) s"
      using False by (simp add: lhm_insert_def find e M)
    from insert_new_linv[OF inv M fresh room, of v] show ?thesis
      unfolding ins using False by auto
  next
    case True
    from rehash_spec[OF inv M] obtain s1 nb' where r: "rehash hasher this s = Some s1"
      "objs s1 = (objs s)(this \<mapsto> M\<lparr>buckets := nb', bucket_capacity := bucket_capacity M * 2\<rparr>)"
      "linv hasher s1 this as" "dat (heap s1) = dat (heap s)"
      "\<forall>x. x \<notin> set as \<longrightarrow> heap s1 x = heap s x" "brk s1 = brk s"
      by blast
    define M1 where "M1 = M\<lparr>buckets := nb', bucket_capacity := bucket_capacity M * 2\<rparr>"
    have M1: "objs s1 this = Some M1" by (simp add: r(2) M1_def)
    have fresh1: "k \<notin> key_of (heap s1) ` set as"
      using fresh by (simp add: key_of_cong[OF r(4)])
    have "16 \<le> bucket_capacity M" using pow by (auto simp: INIT_CAPACITY_def)
    then have room: "4 * (length as + 1) \<le> 3 * bucket_capacity M1"
      using load by (simp add: M1_def)
    have ins: "lhm_insert hasher this (k, v) s = insert_new hasher this (k, v) s1"
      using True by (simp add: lhm_insert_def find e M r(1))
    from insert_new_linv[OF r(3) M1 fresh1 room, of v] obtain s' M' where i:
      "insert_new hasher this (k, v) s1 = Some ((\<lparr>node = Some (brk s1), map_ptr = Some this\<rparr>, True), s')"
      "linv hasher s' this (as @ [brk s1])"
      "dat (heap s') = (dat (heap s1))(brk s1 := Some (k, v))"
      "modifies_only s1 this as s'" "brk s' = Suc (brk s1)"
      "objs s' this = Some M'" "bucket_capacity M' = bucket_capacity M1"
      "order_head M' = order_head M1" "order_tail M' = order_tail M1"
      by blast
    have own: "owned s1 this as = owned s this as"
      by (simp add: owned_def M M1 M1_def)
    have mo: "modifies_only s this as s'"
      using i(4) unfolding modifies_only_def own r(6)
      by (auto simp: r(2) r(5) owned_def)
    show ?thesis
      using i(1,2,3,5,6,7,8,9) mo True unfolding ins r(6) r(4)
      by (intro exI[of _ s'] exI[of _ M']) (simp add: M1_def)
  qed
qed

lemma lhm_insert_existing:
  assumes inv: "linv hasher s this as" and a: "a \<in> set as"
  shows "lhm_insert hasher this (key_of (heap s) a, v) s
          = Some ((\<lparr>node = Some a, map_ptr = Some this\<rparr>, False), s)"
proof -
  from inv obtain M where M: "objs s this = Some M" by (auto elim: linvE)
  have "order_tail M \<noteq> Some a" using linv_tail_notin[OF inv M a] by simp
  then show ?thesis
    by (simp add: lhm_insert_def lhm_find_present[OF inv a] lhm_end_linv[OF M])
qed

subsection \<open>Construction\<close>

lemma init_empty_run:
  assumes "objs s this = Some M"
  shows "init_empty this s = Some (s\<lparr>heap := (heap s)(brk s \<mapsto> LinkNode\<lparr>order_next := Some (Suc (brk s))\<rparr>,
                                             Suc (brk s) \<mapsto> LinkNode\<lparr>order_prev := Some (brk s)\<rparr>),
        objs := (objs s)(this \<mapsto> M\<lparr>order_head := Some (brk s), order_tail := Some (Suc (brk s))\<rparr>),
        brk := Suc (Suc (brk s))\<rparr>)"
  using assms
  by (simp add: init_empty_def new_node_def set_obj_def set_order_next_def set_order_prev_def
      Let_def fun_upd_twist)

lemma init_empty_linv:
  assumes M: "objs s this = Some M"
    and len: "buckets M = replicate (bucket_capacity M) None"
    and pow: "\<exists>j. bucket_capacity M = INIT_CAPACITY * 2 ^ j"
    and num: "num_elements M = 0"
  shows "\<exists>s' M'. init_empty this s = Some s' \<and> linv hasher s' this []
     \<and> (\<forall>x. x < brk s \<longrightarrow> heap s' x = heap s x)
     \<and> (\<forall>m. m \<noteq> this \<longrightarrow> objs s' m = objs s m)
     \<and> brk s' = Suc (Suc (brk s))
     \<and> objs s' this = Some M' \<and> bucket_capacity M' = bucket_capacity M
     \<and> order_head M' = Some (brk s) \<and> order_tail M' = Some (Suc (brk s))"
proof -
  define M' where "M' = M\<lparr>order_head := Some (brk s), order_tail := Some (Suc (brk s))\<rparr>"
  define s' where "s' = s\<lparr>heap := (heap s)(brk s \<mapsto> LinkNode\<lparr>order_next := Some (Suc (brk s))\<rparr>,
                                             Suc (brk s) \<mapsto> LinkNode\<lparr>order_prev := Some (brk s)\<rparr>),
        objs := (objs s)(this \<mapsto> M'), brk := Suc (Suc (brk s))\<rparr>"
  have run: "init_empty this s = Some s'"
    unfolding s'_def M'_def using M by (rule init_empty_run)
  have len': "length (buckets M) = bucket_capacity M"
    by (subst len) simp
  have nth: "\<And>i. i < bucket_capacity M \<Longrightarrow> buckets M ! i = None"
    by (subst len) simp
  have inv: "linv hasher s' this []"
    unfolding linv_def
  proof (rule exI[of _ M'], rule exI[of _ "brk s"], rule exI[of _ "Suc (brk s)"], intro conjI)
    show "\<forall>i < bucket_capacity M'. \<exists>cs. chain (nib (heap s')) (buckets M' ! i) cs \<and> distinct cs
             \<and> set cs = {x \<in> set []. hasher (key_of (heap s') x) mod bucket_capacity M' = i}"
      using nth by (simp add: M'_def)
  qed (use pow num len' in \<open>simp_all add: s'_def M'_def onx_def opv_def dat_def LinkNode_def\<close>)
  show ?thesis
    using run inv
    by (intro exI[of _ s'] exI[of _ M']) (simp add: s'_def M'_def)
qed

lemma lhm_ctor_linv:
  "\<exists>s' M'. lhm_ctor this s = Some s' \<and> linv hasher s' this []
     \<and> (\<forall>x. x < brk s \<longrightarrow> heap s' x = heap s x)
     \<and> (\<forall>m. m \<noteq> this \<longrightarrow> objs s' m = objs s m)
     \<and> brk s' = Suc (Suc (brk s))
     \<and> objs s' this = Some M' \<and> bucket_capacity M' = INIT_CAPACITY"
proof -
  define M where "M = \<lparr>buckets = replicate INIT_CAPACITY None, order_head = None, order_tail = None,
        bucket_capacity = INIT_CAPACITY, num_elements = 0\<rparr>"
  have "\<exists>j. bucket_capacity M = INIT_CAPACITY * 2 ^ j"
    by (rule exI[of _ 0]) (simp add: M_def)
  from init_empty_linv[of "set_obj this M s" this M hasher, OF _ _ this]
  show ?thesis
    unfolding lhm_ctor_def M_def[symmetric]
    by (auto simp: set_obj_def M_def)
qed

lemma linv_fresh_store: "linv hasher fresh_store 100 []"
  using lhm_ctor_linv[of 100 empty_store hasher] by (simp add: lhm_ctor_empty_store)

subsection \<open>Iteration\<close>

lemma lhm_begin_linv:
  assumes "linv hasher s this as" "objs s this = Some M"
  shows "lhm_begin this s = Some \<lparr>node = Some (hd (as @ the (map_option (\<lambda>t. [t]) (order_tail M)))), map_ptr = Some this\<rparr>"
proof -
  from assms obtain h t where h: "order_head M = Some h" and t: "order_tail M = Some t"
    and fp: "fpath (onx (heap s)) (h # as @ [t])"
    by (auto elim!: linvE)
  from fpath_hd[OF fp] obtain n where "heap s h = Some n" "order_next n = Some (hd (as @ [t]))"
    by (auto dest: onx_SomeD)
  then show ?thesis
    by (simp add: lhm_begin_def assms(2) h t load_def)
qed

lemma iterate_loop_spec:
  assumes M: "objs s this = Some M" and h: "order_head M = Some h" and t: "order_tail M = Some t"
    and fp: "fpath (onx (heap s)) (xs @ [t])"
    and nots: "h \<notin> set xs" "t \<notin> set xs"
    and ent: "\<forall>a \<in> set xs. dat (heap s) a \<noteq> None"
  shows "iterate_loop this \<lparr>node = Some (hd (xs @ [t])), map_ptr = Some this\<rparr> s = Some (Inr (entries s xs))"
  using fp nots ent
proof (induction xs)
  case Nil
  show ?case
    by (subst iterate_loop.simps) (simp add: lhm_end_def M t entries_def)
next
  case (Cons a xs)
  from Cons.prems(4) obtain kv where kv: "dat (heap s) a = Some kv" by auto
  then obtain n where n: "heap s a = Some n" "data n = Some kv" by (auto dest: dat_SomeD)
  have "onx (heap s) a = Some (Some (hd (xs @ [t])))"
    using Cons.prems(1) by (cases xs) auto
  then have on: "order_next n = Some (hd (xs @ [t]))" by (simp add: onx_def n)
  have IH: "iterate_loop this \<lparr>node = Some (hd (xs @ [t])), map_ptr = Some this\<rparr> s = Some (Inr (entries s xs))"
    using Cons.prems by (intro Cons.IH) (auto dest: fpath_tl)
  have ne: "a \<noteq> t" "a \<noteq> h" using Cons.prems by auto
  show ?case
    using ne
    by (subst iterate_loop.simps)
       (simp add: lhm_end_def M t h it_deref_def load_obj_def ref_data_def load_def n
          it_pre_inc_def on IH entries_def dat_def)
qed

lemma iterate_linv:
  assumes "linv hasher s this as"
  shows "iterate this s = Some (Inr (entries s as))"
proof -
  from assms obtain M h t where M: "objs s this = Some M" and h: "order_head M = Some h"
    and t: "order_tail M = Some t"
    and dist: "distinct (h # as @ [t])"
    and fp: "fpath (onx (heap s)) (h # as @ [t])"
    and ent: "\<forall>a \<in> set as. dat (heap s) a \<noteq> None"
    by (auto elim!: linvE)
  have "iterate_loop this \<lparr>node = Some (hd (as @ [t])), map_ptr = Some this\<rparr> s = Some (Inr (entries s as))"
    using M h t fpath_tl[OF fp] _ _ ent by (rule iterate_loop_spec) (use dist in auto)
  then show ?thesis
    by (simp add: iterate_def lhm_begin_linv[OF assms M] t)
qed

lemma insert_fresh_store:
  "lhm_insert id 100 (7, 70) fresh_store
     = Some ((\<lparr>node = Some 2, map_ptr = Some 100\<rparr>, True), one_store)"
proof -
  have "lhm_find id 100 7 fresh_store = lhm_end 100 fresh_store"
    by (rule lhm_find_absent[OF linv_fresh_store]) simp
  then have "lhm_insert id 100 (7, 70) fresh_store = insert_new id 100 (7, 70) fresh_store"
    by (simp add: lhm_insert_def lhm_end_def fresh_store_def)
  also have "\<dots> = Some ((\<lparr>node = Some 2, map_ptr = Some 100\<rparr>, True), one_store)"
    by (simp add: insert_new_def new_node_def Node_def get_bucket_index_def nth_opt_def
      set_next_in_bucket_def load_Node_def load_def set_obj_def set_order_prev_def set_order_next_def
      Let_def fresh_store_def one_store_def LinkNode_def fun_upd_twist)
  finally show ?thesis .
qed

lemma linv_one_store: "linv id one_store 100 [2]"
proof -
  have M: "objs fresh_store 100 = Some \<lparr>buckets = replicate 16 None, order_head = Some 0,
      order_tail = Some 1, bucket_capacity = 16, num_elements = 0\<rparr>"
    by (simp add: fresh_store_def)
  from lhm_insert_new[OF linv_fresh_store M, where k=7 and v=70 and hasher=id] show ?thesis
    by (simp add: insert_fresh_store) (simp add: fresh_store_def)
qed

lemma entries_one_store: "entries one_store [2] = [(7, 70)]"
  by (simp add: entries_def one_store_def dat_def Node_def)

lemma ref_data_dat: "ref_data s (Some a) = dat (heap s) a"
  by (simp add: ref_data_def load_def dat_def)

subsection \<open>Primitive writes, field by field\<close>

lemma set_order_next_spec:
  assumes "heap s a \<noteq> None"
  obtains s' where "set_order_next (Some a) q s = Some s'"
    "onx (heap s') = (onx (heap s))(a := Some q)" "opv (heap s') = opv (heap s)"
    "dat (heap s') = dat (heap s)" "nib (heap s') = nib (heap s)"
    "objs s' = objs s" "brk s' = brk s" "\<forall>x. x \<noteq> a \<longrightarrow> heap s' x = heap s x"
    "dom (heap s') = dom (heap s)"
proof -
  from assms obtain n where n: "heap s a = Some n" by auto
  show ?thesis
    by (rule that[of "s\<lparr>heap := (heap s)(a \<mapsto> n\<lparr>order_next := q\<rparr>)\<rparr>"])
       (use n in \<open>auto simp: set_order_next_def onx_def opv_def dat_def nib_def fun_eq_iff\<close>)
qed

lemma set_order_prev_spec:
  assumes "heap s a \<noteq> None"
  obtains s' where "set_order_prev (Some a) q s = Some s'"
    "opv (heap s') = (opv (heap s))(a := Some q)" "onx (heap s') = onx (heap s)"
    "dat (heap s') = dat (heap s)" "nib (heap s') = nib (heap s)"
    "objs s' = objs s" "brk s' = brk s" "\<forall>x. x \<noteq> a \<longrightarrow> heap s' x = heap s x"
    "dom (heap s') = dom (heap s)"
proof -
  from assms obtain n where n: "heap s a = Some n" by auto
  show ?thesis
    by (rule that[of "s\<lparr>heap := (heap s)(a \<mapsto> n\<lparr>order_prev := q\<rparr>)\<rparr>"])
       (use n in \<open>auto simp: set_order_prev_def onx_def opv_def dat_def nib_def fun_eq_iff\<close>)
qed

lemma set_next_in_bucket_spec:
  assumes "dat (heap s) a \<noteq> None"
  obtains s' where "set_next_in_bucket (Some a) q s = Some s'"
    "nib (heap s') = (nib (heap s))(a := Some q)" "onx (heap s') = onx (heap s)"
    "opv (heap s') = opv (heap s)" "dat (heap s') = dat (heap s)"
    "objs s' = objs s" "brk s' = brk s" "\<forall>x. x \<noteq> a \<longrightarrow> heap s' x = heap s x"
    "dom (heap s') = dom (heap s)"
proof -
  from assms obtain n kv where n: "heap s a = Some n" "data n = Some kv"
    by (auto dest: dat_SomeD)
  show ?thesis
    by (rule that[of "s\<lparr>heap := (heap s)(a \<mapsto> n\<lparr>next_in_bucket := q\<rparr>)\<rparr>"])
       (use n in \<open>auto simp: set_next_in_bucket_def load_Node_def load_def onx_def opv_def dat_def
          nib_def fun_eq_iff\<close>)
qed

lemma delete_node_spec:
  assumes "heap s a \<noteq> None"
  obtains s' where "delete_node (Some a) s = Some s'"
    "onx (heap s') = (onx (heap s))(a := None)" "opv (heap s') = (opv (heap s))(a := None)"
    "dat (heap s') = (dat (heap s))(a := None)" "nib (heap s') = (nib (heap s))(a := None)"
    "objs s' = objs s" "brk s' = brk s" "\<forall>x. x \<noteq> a \<longrightarrow> heap s' x = heap s x"
    "heap s' a = None"
proof -
  from assms obtain n where n: "heap s a = Some n" by auto
  show ?thesis
    by (rule that[of "s\<lparr>heap := (heap s)(a := None)\<rparr>"])
       (use n in \<open>auto simp: delete_node_def onx_def opv_def dat_def nib_def fun_eq_iff\<close>)
qed

lemma load_fields:
  assumes "heap s a \<noteq> None"
  obtains n where "load s (Some a) = Some n" "onx (heap s) a = Some (order_next n)"
    "opv (heap s) a = Some (order_prev n)" "dat (heap s) a = data n"
  using assms by (auto simp: load_def onx_def opv_def dat_def)

lemma load_Node_fields:
  assumes "dat (heap s) a \<noteq> None"
  obtains n where "load_Node s (Some a) = Some n" "load s (Some a) = Some n"
    "onx (heap s) a = Some (order_next n)"
    "opv (heap s) a = Some (order_prev n)" "dat (heap s) a = data n"
    "nib (heap s) a = Some (next_in_bucket n)"
  using assms by (auto simp: load_Node_def load_def onx_def opv_def dat_def nib_def split: option.splits)

lemma heap_alloc_onx: "heap s a \<noteq> None \<longleftrightarrow> onx (heap s) a \<noteq> None"
  by (simp add: onx_def)

lemma heap_alloc_opv: "heap s a \<noteq> None \<longleftrightarrow> opv (heap s) a \<noteq> None"
  by (simp add: opv_def)

lemma dat_alloc: "dat H a \<noteq> None \<Longrightarrow> H a \<noteq> None"
  by (auto simp: dat_def split: option.splits)

subsection \<open>Unlinking\<close>

lemma fpath_unlink:
  assumes "fpath f (xs @ c # ys)" "xs \<noteq> []" "ys \<noteq> []" "distinct (xs @ c # ys)"
  shows "fpath (f(last xs := Some (Some (hd ys)), c := x)) (xs @ ys)"
proof -
  obtain xs' p where xs: "xs = xs' @ [p]" using assms(2) by (metis append_butlast_last_id)
  obtain n ys' where ys: "ys = n # ys'" using assms(3) by (cases ys) auto
  let ?f' = "f(p := Some (Some n), c := x)"
  have "fpath f (xs' @ [p, c]) \<and> fpath f (c # n # ys')"
    using assms(1) fpath_append[of f "xs' @ [p]" c "n # ys'"] unfolding xs ys by simp
  then have 1: "fpath f (xs' @ [p])" "fpath f (n # ys')"
    by (simp_all add: fpath_snoc2)
  have "fpath ?f' (xs' @ [p]) = fpath f (xs' @ [p])"
    by (rule fpath_cong) (use assms(4) in \<open>auto simp: xs ys\<close>)
  moreover have "fpath ?f' (n # ys') = fpath f (n # ys')"
  proof (rule fpath_cong, intro ballI)
    fix a assume "a \<in> set (butlast (n # ys'))"
    then have "a \<in> set (n # ys')" by (rule in_set_butlastD)
    then show "?f' a = f a" using assms(4) by (auto simp: xs ys)
  qed
  moreover have "?f' p = Some (Some n)" using assms(4) by (auto simp: xs ys)
  ultimately show ?thesis
    using 1 fpath_append[of ?f' "xs' @ [p]" n ys'] unfolding xs ys by (simp add: fpath_snoc2)
qed

lemma bpath_unlink:
  assumes "bpath f (xs @ c # ys)" "xs \<noteq> []" "ys \<noteq> []" "distinct (xs @ c # ys)"
  shows "bpath (f(hd ys := Some (Some (last xs)), c := x)) (xs @ ys)"
proof -
  obtain xs' p where xs: "xs = xs' @ [p]" using assms(2) by (metis append_butlast_last_id)
  obtain n ys' where ys: "ys = n # ys'" using assms(3) by (cases ys) auto
  let ?f' = "f(n := Some (Some p), c := x)"
  have "bpath f (xs' @ [p, c]) \<and> bpath f (c # n # ys')"
    using assms(1) bpath_append[of f "xs' @ [p]" c "n # ys'"] unfolding xs ys by simp
  then have 1: "bpath f (xs' @ [p])" "bpath f (n # ys')"
    by (simp_all add: bpath_snoc2)
  have "bpath ?f' (xs' @ [p]) = bpath f (xs' @ [p])"
  proof (rule bpath_cong, intro ballI)
    fix a assume "a \<in> set (tl (xs' @ [p]))"
    then have "a \<in> set (xs' @ [p])" by (cases "xs' @ [p]") auto
    then show "?f' a = f a" using assms(4) by (auto simp: xs ys)
  qed
  moreover have "bpath ?f' (n # ys') = bpath f (n # ys')"
    by (rule bpath_cong) (use assms(4) in \<open>auto simp: xs ys\<close>)
  moreover have "?f' n = Some (Some p)" using assms(4) by (auto simp: xs ys)
  ultimately show ?thesis
    using 1 bpath_append[of ?f' "xs' @ [p]" n ys'] unfolding xs ys by (simp add: bpath_snoc2)
qed

lemma cseg_snoc: "cseg f p (xs @ [a]) q = (cseg f p xs (Some a) \<and> f a = Some q)"
  by (auto simp: cseg_append split: option.splits)

lemma cseg_mid:
  "cseg f p (xs @ a # ys) q = (cseg f p xs (Some a) \<and> (\<exists>r. f a = Some r \<and> cseg f r ys q))"
  by (induction xs arbitrary: p) (auto split: option.splits)

lemma chain_unlink:
  assumes "chain f p (pre @ c # post)" "distinct (pre @ c # post)"
  shows "\<exists>r. f c = Some r \<and> cseg f p pre (Some c)
      \<and> (pre = [] \<longrightarrow> p = Some c \<and> chain (f(c := x)) r post)
      \<and> (pre \<noteq> [] \<longrightarrow> chain (f(last pre := Some r, c := x)) p (pre @ post))"
proof -
  from assms(1) obtain r where r: "cseg f p pre (Some c)" "f c = Some r" "chain f r post"
    unfolding chain_def cseg_mid by blast
  have post: "chain (f(c := x)) r post"
    using r(3) assms(2) by (subst chain_cong[of post _ f]) auto
  have nonempty: "chain (f(last pre := Some r, c := x)) p (pre @ post)" if ne: "pre \<noteq> []"
  proof -
    obtain pre' q where pre: "pre = pre' @ [q]" using ne by (metis append_butlast_last_id)
    let ?f' = "f(q := Some r, c := x)"
    have qc: "q \<noteq> c" "q \<notin> set pre'" "q \<notin> set post" "c \<notin> set pre'" "c \<notin> set post"
      using assms(2) by (auto simp: pre)
    have "cseg f p pre' (Some q)" using r(1) by (simp add: pre cseg_snoc)
    then have 1: "cseg ?f' p pre' (Some q)"
      using qc by (subst cseg_cong[of pre' _ f]) auto
    have 2: "?f' q = Some r" using qc by simp
    have 3: "cseg ?f' r post None"
      using r(3) qc unfolding chain_def by (subst cseg_cong[of post _ f]) auto
    have "cseg ?f' p (pre' @ q # post) None"
      using 1 3 qc by (simp add: cseg_mid)
    then show ?thesis
      by (simp add: chain_def pre)
  qed
  have empty: "p = Some c \<and> chain (f(c := x)) r post" if "pre = []"
    using r(1) post that by simp
  show ?thesis
    using r(1,2) nonempty empty by blast
qed

lemma erase_loop_spec:
  assumes "cseg (nib (heap s)) p pre (Some c)" "c \<notin> set pre"
  shows "erase_loop s (Some c) prev p = Some (if pre = [] then prev else Some (last pre))"
  using assms
proof (induction pre arbitrary: p prev)
  case Nil
  then show ?case by (subst erase_loop.simps) simp
next
  case (Cons a pre)
  from Cons.prems obtain r where r: "p = Some a" "nib (heap s) a = Some r"
    "cseg (nib (heap s)) r pre (Some c)"
    by (auto split: option.splits)
  from nib_SomeD[OF r(2)] obtain n where n: "heap s a = Some n" "data n \<noteq> None" "next_in_bucket n = r"
    by auto
  have "erase_loop s (Some c) (Some a) r = Some (if pre = [] then Some a else Some (last pre))"
    using r(3) Cons.prems(2) by (intro Cons.IH) auto
  then show ?case
    using Cons.prems(2)
    by (subst erase_loop.simps) (auto simp: r(1) load_Node_def load_def n)
qed

lemma fpath_mid_next: "fpath f (xs @ c # ys) \<Longrightarrow> ys \<noteq> [] \<Longrightarrow> f c = Some (Some (hd ys))"
  by (induction f xs rule: fpath.induct) (auto simp: neq_Nil_conv)

lemma bpath_mid_prev: "bpath f (xs @ c # ys) \<Longrightarrow> xs \<noteq> [] \<Longrightarrow> f c = Some (Some (last xs))"
  by (induction f xs rule: bpath.induct) (auto simp: neq_Nil_conv)

lemma fpath_alloc: "fpath f (xs @ [t]) \<Longrightarrow> a \<in> set xs \<Longrightarrow> f a \<noteq> None"
  by (induction f xs rule: fpath.induct) auto

lemma erase_bucket_step:
  assumes M: "objs s this = Some M" and q: "pre \<noteq> [] \<longrightarrow> dat (heap s) (last pre) \<noteq> None"
  obtains s1 where
    "(if (if pre = [] then None else Some (last pre)) \<noteq> None
      then set_next_in_bucket (if pre = [] then None else Some (last pre)) r s
      else Some (set_obj this (M\<lparr>buckets := (buckets M)[idx := r]\<rparr>) s)) = Some s1"
    "nib (heap s1) = (if pre = [] then nib (heap s) else (nib (heap s))(last pre := Some r))"
    "onx (heap s1) = onx (heap s)" "opv (heap s1) = opv (heap s)" "dat (heap s1) = dat (heap s)"
    "brk s1 = brk s"
    "objs s1 = (objs s)(this \<mapsto> (if pre = [] then M\<lparr>buckets := (buckets M)[idx := r]\<rparr> else M))"
    "\<forall>x. (pre = [] \<or> x \<noteq> last pre) \<longrightarrow> heap s1 x = heap s x"
    "dom (heap s1) = dom (heap s)"
proof (cases "pre = []")
  case True
  show ?thesis
    by (rule that[of "set_obj this (M\<lparr>buckets := (buckets M)[idx := r]\<rparr>) s"])
       (simp_all add: True set_obj_def)
next
  case False
  with q have "dat (heap s) (last pre) \<noteq> None" by simp
  from set_next_in_bucket_spec[OF this, of r] obtain s1 where s1:
    "set_next_in_bucket (Some (last pre)) r s = Some s1"
    "nib (heap s1) = (nib (heap s))(last pre := Some r)" "onx (heap s1) = onx (heap s)"
    "opv (heap s1) = opv (heap s)" "dat (heap s1) = dat (heap s)"
    "objs s1 = objs s" "brk s1 = brk s" "\<forall>x. x \<noteq> last pre \<longrightarrow> heap s1 x = heap s x"
    "dom (heap s1) = dom (heap s)"
    by blast
  show ?thesis
    by (rule that[of s1]) (use s1 M False in \<open>auto simp: fun_eq_iff\<close>)
qed

lemma lhm_erase_linv:
  assumes inv: "linv hasher s this as" and c: "c \<in> set as" and M: "objs s this = Some M"
  shows "\<exists>s' M'. lhm_erase hasher this \<lparr>node = Some c, map_ptr = Some this\<rparr> s = Some (Inr (), s')
     \<and> linv hasher s' this (remove1 c as)
     \<and> dat (heap s') = (dat (heap s))(c := None)
     \<and> heap s' c = None
     \<and> modifies_only s this as s'
     \<and> brk s' = brk s
     \<and> objs s' this = Some M' \<and> bucket_capacity M' = bucket_capacity M
     \<and> order_head M' = order_head M \<and> order_tail M' = order_tail M
     \<and> num_elements M' = num_elements M - 1"
proof -
  let ?H = "heap s"
  from inv M obtain h t where h: "order_head M = Some h" and t: "order_tail M = Some t"
    and dist: "distinct (h # as @ [t])" and lt: "\<forall>a \<in> set (h # as @ [t]). a < brk s"
    and fp: "fpath (onx ?H) (h # as @ [t])" and bp: "bpath (opv ?H) (h # as @ [t])"
    and alloc: "heap s h \<noteq> None" "heap s t \<noteq> None"
    and sent: "dat ?H h = None" "dat ?H t = None"
    and ent: "\<forall>a \<in> set as. dat ?H a \<noteq> None"
    and keys: "distinct (map (key_of ?H) as)"
    and len: "length (buckets M) = bucket_capacity M"
    and pow: "\<exists>j. bucket_capacity M = INIT_CAPACITY * 2 ^ j"
    and num: "num_elements M = length as"
    and load: "4 * length as \<le> 3 * bucket_capacity M"
    and ch: "\<forall>i < bucket_capacity M. \<exists>cs. chain (nib ?H) (buckets M ! i) cs \<and> distinct cs
             \<and> set cs = {a \<in> set as. hasher (key_of ?H a) mod bucket_capacity M = i}"
    by (auto elim!: linvE)
  \<comment> \<open>position of \<open>c\<close> in the order list\<close>
  from c obtain as1 as2 where as: "as = as1 @ c # as2" by (auto dest: split_list)
  define xs where "xs = h # as1"
  define ys where "ys = as2 @ [t]"
  define pp where "pp = last xs"
  define nn where "nn = hd ys"
  have full: "h # as @ [t] = xs @ c # ys" by (simp add: as xs_def ys_def)
  have ne: "xs \<noteq> []" "ys \<noteq> []" by (simp_all add: xs_def ys_def)
  have dist': "distinct (xs @ c # ys)" using dist unfolding full .
  define as' where "as' = as1 @ as2"
  have rem: "remove1 c as = as'"
    using dist by (simp add: as remove1_append as'_def)
  have full': "h # as' @ [t] = xs @ ys" by (simp add: as'_def xs_def ys_def)
  have set_as': "set as' = set as - {c}" using dist by (auto simp: as as'_def)
  have len_as': "length as = Suc (length as')" by (simp add: as as'_def)
  have c_rem: "c \<notin> set as'" by (simp add: set_as')
  have sub: "set as' \<subseteq> set as" by (auto simp: set_as')
  have dist_as': "distinct (h # as' @ [t])" using dist by (simp add: as as'_def)
  have keys_as': "distinct (map (key_of ?H) as')" using keys by (simp add: as as'_def)
  have pp_in: "pp \<in> set xs" and nn_in: "nn \<in> set ys" using ne by (simp_all add: pp_def nn_def)
  have neqs: "pp \<noteq> c" "nn \<noteq> c" "pp \<noteq> nn" "c \<noteq> h" "c \<noteq> t"
    using dist' pp_in nn_in by (auto simp: xs_def ys_def)
  have onx_c: "onx ?H c = Some (Some nn)"
    using fp ne(2) unfolding full nn_def by (rule fpath_mid_next)
  have opv_c: "opv ?H c = Some (Some pp)"
    using bp ne(1) unfolding full pp_def by (rule bpath_mid_prev)
  have pp_alloc: "?H pp \<noteq> None"
  proof -
    have "pp \<in> set (h # as)" using pp_in by (auto simp: xs_def as)
    with fp have "onx ?H pp \<noteq> None" by (intro fpath_alloc[of _ "h # as" t]) simp_all
    then show ?thesis by (auto simp: onx_def)
  qed
  have nn_alloc: "?H nn \<noteq> None"
  proof (cases "nn = t")
    case True then show ?thesis using alloc by simp
  next
    case False
    then have "nn \<in> set as" using nn_in by (auto simp: ys_def as)
    with ent have "dat ?H nn \<noteq> None" by blast
    then show ?thesis by (rule dat_alloc)
  qed
  \<comment> \<open>the node and its bucket\<close>
  from c ent have "dat ?H c \<noteq> None" by simp
  from load_Node_fields[OF this] obtain n_c where nc: "load_Node s (Some c) = Some n_c"
    "load s (Some c) = Some n_c" "onx ?H c = Some (order_next n_c)"
    "opv ?H c = Some (order_prev n_c)" "dat ?H c = data n_c"
    "nib ?H c = Some (next_in_bucket n_c)"
    by blast
  from \<open>dat ?H c \<noteq> None\<close> obtain kv where kv: "data n_c = Some kv" by (auto simp: nc(5))
  define r where "r = next_in_bucket n_c"
  have kc: "key_of ?H c = fst kv" by (simp add: key_of_def nc(5) kv)
  define idx where "idx = hasher (fst kv) mod bucket_capacity M"
  have pos: "0 < bucket_capacity M" using pow by (rule capacity_pos)
  have idx: "idx < bucket_capacity M" using pos by (simp add: idx_def)
  have hc: "hasher (key_of ?H c) mod bucket_capacity M = idx" by (simp add: kc idx_def)
  from ch idx obtain cs where cs: "chain (nib ?H) (buckets M ! idx) cs" "distinct cs"
    "set cs = {a \<in> set as. hasher (key_of ?H a) mod bucket_capacity M = idx}"
    by blast
  have "c \<in> set cs" using c hc by (simp add: cs(3))
  then obtain pre post where cs_split: "cs = pre @ c # post" by (auto dest: split_list)
  have c_pre: "c \<notin> set pre" "c \<notin> set post" using cs(2) by (auto simp: cs_split)
  from chain_unlink[OF cs(1)[unfolded cs_split] cs(2)[unfolded cs_split], of None]
  have seg: "cseg (nib ?H) (buckets M ! idx) pre (Some c)"
    and unl0: "pre = [] \<longrightarrow> chain ((nib ?H)(c := None)) r post"
    and unl1: "pre \<noteq> [] \<longrightarrow> chain ((nib ?H)(last pre := Some r, c := None)) (buckets M ! idx) (pre @ post)"
    by (auto simp: nc(6) r_def)
  define prev where "prev = (if pre = [] then None else Some (last pre))"
  have loop: "erase_loop s (Some c) None (buckets M ! idx) = Some prev"
    unfolding prev_def using erase_loop_spec[OF seg c_pre(1), of None] by simp
  have q_in: "pre \<noteq> [] \<longrightarrow> last pre \<in> set cs" by (auto simp: cs_split)
  then have q_as: "pre \<noteq> [] \<longrightarrow> last pre \<in> set as" by (auto simp: cs(3))
  with ent have q_dat: "pre \<noteq> [] \<longrightarrow> dat ?H (last pre) \<noteq> None" by auto
  have q_c: "pre \<noteq> [] \<longrightarrow> last pre \<noteq> c" using c_pre(1) last_in_set by metis
  \<comment> \<open>the five writes\<close>
  define M1 where "M1 = (if pre = [] then M\<lparr>buckets := (buckets M)[idx := r]\<rparr> else M)"
  from erase_bucket_step[OF M q_dat, of r idx] obtain s1 where s1:
    "(if prev \<noteq> None then set_next_in_bucket prev r s
      else Some (set_obj this (M\<lparr>buckets := (buckets M)[idx := r]\<rparr>) s)) = Some s1"
    "nib (heap s1) = (if pre = [] then nib ?H else (nib ?H)(last pre := Some r))"
    "onx (heap s1) = onx ?H" "opv (heap s1) = opv ?H" "dat (heap s1) = dat ?H"
    "brk s1 = brk s" "objs s1 = (objs s)(this \<mapsto> M1)"
    "\<forall>x. (pre = [] \<or> x \<noteq> last pre) \<longrightarrow> heap s1 x = heap s x"
    "dom (heap s1) = dom ?H"
    unfolding prev_def M1_def by blast
  have c1_alloc: "heap s1 c \<noteq> None" using nc(2) s1(9) by (auto simp: load_def dom_def)
  from load_fields[OF this] obtain c1 where c1': "load s1 (Some c) = Some c1"
    "onx (heap s1) c = Some (order_next c1)" "opv (heap s1) c = Some (order_prev c1)"
    by blast
  have c1: "load s1 (Some c) = Some c1" "order_next c1 = Some nn" "order_prev c1 = Some pp"
    using c1' onx_c opv_c by (simp_all add: s1(3) s1(4))
  have "heap s1 pp \<noteq> None" using pp_alloc s1(9) by (auto simp: dom_def)
  from set_order_next_spec[OF this, of "Some nn"] obtain s2 where s2:
    "set_order_next (Some pp) (Some nn) s1 = Some s2"
    "onx (heap s2) = (onx (heap s1))(pp := Some (Some nn))" "opv (heap s2) = opv (heap s1)"
    "dat (heap s2) = dat (heap s1)" "nib (heap s2) = nib (heap s1)"
    "objs s2 = objs s1" "brk s2 = brk s1" "\<forall>x. x \<noteq> pp \<longrightarrow> heap s2 x = heap s1 x"
    "dom (heap s2) = dom (heap s1)"
    by blast
  have c2_alloc: "heap s2 c \<noteq> None" using c1_alloc s2(9) by (auto simp: dom_def)
  from load_fields[OF this] obtain c2 where c2': "load s2 (Some c) = Some c2"
    "onx (heap s2) c = Some (order_next c2)" "opv (heap s2) c = Some (order_prev c2)"
    by blast
  have c2: "load s2 (Some c) = Some c2" "order_next c2 = Some nn" "order_prev c2 = Some pp"
    using c2' onx_c opv_c neqs by (simp_all add: s1(3) s1(4) s2(2) s2(3))
  have "heap s2 nn \<noteq> None" using nn_alloc s1(9) s2(9) by (auto simp: dom_def)
  from set_order_prev_spec[OF this, of "Some pp"] obtain s3 where s3:
    "set_order_prev (Some nn) (Some pp) s2 = Some s3"
    "opv (heap s3) = (opv (heap s2))(nn := Some (Some pp))" "onx (heap s3) = onx (heap s2)"
    "dat (heap s3) = dat (heap s2)" "nib (heap s3) = nib (heap s2)"
    "objs s3 = objs s2" "brk s3 = brk s2" "\<forall>x. x \<noteq> nn \<longrightarrow> heap s3 x = heap s2 x"
    "dom (heap s3) = dom (heap s2)"
    by blast
  have "heap s3 c \<noteq> None" using c2_alloc s3(9) by (auto simp: dom_def)
  from delete_node_spec[OF this] obtain s4 where s4:
    "delete_node (Some c) s3 = Some s4"
    "onx (heap s4) = (onx (heap s3))(c := None)" "opv (heap s4) = (opv (heap s3))(c := None)"
    "dat (heap s4) = (dat (heap s3))(c := None)" "nib (heap s4) = (nib (heap s3))(c := None)"
    "objs s4 = objs s3" "brk s4 = brk s3" "\<forall>x. x \<noteq> c \<longrightarrow> heap s4 x = heap s3 x"
    "heap s4 c = None"
    by blast
  have M4: "objs s4 this = Some M1" by (simp add: s4(6) s3(6) s2(6) s1(7))
  have num1: "num_elements M1 = length as" "num_elements M1 \<noteq> 0"
    using num c by (auto simp: M1_def)
  define M' where "M' = M1\<lparr>num_elements := length as - 1\<rparr>"
  have M'_fields: "bucket_capacity M' = bucket_capacity M" "order_head M' = Some h"
    "order_tail M' = Some t" "length (buckets M') = bucket_capacity M"
    "num_elements M' = length as'" "num_elements M' = num_elements M - 1"
    using len by (auto simp: M'_def M1_def h t len_as' num)
  have M'_buckets: "\<And>i. i \<noteq> idx \<Longrightarrow> buckets M' ! i = buckets M ! i"
    "pre = [] \<Longrightarrow> buckets M' ! idx = r" "pre \<noteq> [] \<Longrightarrow> buckets M' ! idx = buckets M ! idx"
    using idx len by (auto simp: M'_def M1_def)
  define s' where "s' = set_obj this M' s4"
  have s1A: "prev \<noteq> None \<longrightarrow> set_next_in_bucket prev r s = Some s1"
    and s1B: "prev = None \<longrightarrow> set_obj this (M\<lparr>buckets := (buckets M)[idx := r]\<rparr>) s = s1"
    using s1(1) by (auto split: if_splits)
  have run: "lhm_erase hasher this \<lparr>node = Some c, map_ptr = Some this\<rparr> s = Some (Inr (), s')"
    using neqs pos idx s1A s1B len_as'
    by (cases "prev = None")
       (simp_all add: lhm_erase_def M h t nc(1) kv get_bucket_index_def nth_opt_def len
        idx_def[symmetric] loop r_def[symmetric] c1 s2(1) c2 s3(1) s4(1) M4 num1
        s'_def M'_def Let_def)
  let ?H' = "heap s'"
  have heap': "?H' = heap s4" by (simp add: s'_def set_obj_def)
  have onx': "onx ?H' = (onx ?H)(pp := Some (Some nn), c := None)"
    by (simp add: heap' s4(2) s3(3) s2(2) s1(3))
  have opv': "opv ?H' = (opv ?H)(nn := Some (Some pp), c := None)"
    by (simp add: heap' s4(3) s3(2) s2(3) s1(4))
  have dat': "dat ?H' = (dat ?H)(c := None)"
    by (simp add: heap' s4(4) s3(4) s2(4) s1(5))
  have nib': "nib ?H' = (if pre = [] then nib ?H else (nib ?H)(last pre := Some r))(c := None)"
    by (simp add: heap' s4(5) s3(5) s2(5) s1(2))
  have key': "\<And>x. x \<noteq> c \<Longrightarrow> key_of ?H' x = key_of ?H x"
    by (simp add: key_of_def dat')
  have objs': "objs s' = (objs s)(this \<mapsto> M')"
    by (simp add: s'_def set_obj_def s4(6) s3(6) s2(6) s1(7))
  have brk': "brk s' = brk s"
    by (simp add: s'_def set_obj_def s4(7) s3(7) s2(7) s1(6))
  have frame: "\<forall>x. x \<notin> set as \<and> x \<noteq> h \<and> x \<noteq> t \<longrightarrow> ?H' x = ?H x"
  proof (intro allI impI)
    fix x assume x: "x \<notin> set as \<and> x \<noteq> h \<and> x \<noteq> t"
    have "x \<noteq> c" using x c by auto
    moreover have "x \<noteq> nn" using x nn_in by (auto simp: ys_def as)
    moreover have "x \<noteq> pp" using x pp_in by (auto simp: xs_def as)
    moreover have "pre = [] \<or> x \<noteq> last pre" using x q_as by auto
    ultimately have "heap s4 x = heap s3 x" "heap s3 x = heap s2 x" "heap s2 x = heap s1 x"
      "heap s1 x = ?H x"
      using s1(8) s2(8) s3(8) s4(8) by blast+
    then show "?H' x = ?H x" by (simp add: heap')
  qed
  have chains: "\<forall>i < bucket_capacity M'. \<exists>cs. chain (nib ?H') (buckets M' ! i) cs \<and> distinct cs
       \<and> set cs = {x \<in> set as'. hasher (key_of ?H' x) mod bucket_capacity M' = i}"
  proof (intro allI impI)
    fix i assume "i < bucket_capacity M'"
    then have i: "i < bucket_capacity M" by (simp add: M'_fields)
    have setP: "{x \<in> set as'. hasher (key_of ?H' x) mod bucket_capacity M' = i}
        = {x \<in> set as. hasher (key_of ?H x) mod bucket_capacity M = i} - {c}"
      using key' by (auto simp: M'_fields(1) set_as')
    show "\<exists>cs. chain (nib ?H') (buckets M' ! i) cs \<and> distinct cs
       \<and> set cs = {x \<in> set as'. hasher (key_of ?H' x) mod bucket_capacity M' = i}"
    proof (cases "i = idx")
      case True
      have 1: "chain (nib ?H') (buckets M' ! i) (pre @ post)"
      proof (cases "pre = []")
        case True
        then show ?thesis using unl0 \<open>i = idx\<close> by (simp add: nib' M'_buckets)
      next
        case False
        then show ?thesis using unl1 \<open>i = idx\<close> by (simp add: nib' M'_buckets)
      qed
      have 2: "distinct (pre @ post)" using cs(2) by (simp add: cs_split)
      have "set (pre @ post) = set cs - {c}" using cs(2) by (auto simp: cs_split)
      then have 3: "set (pre @ post) = {x \<in> set as'. hasher (key_of ?H' x) mod bucket_capacity M' = i}"
        unfolding True setP[unfolded True] cs(3) .
      from 1 2 3 show ?thesis by (intro exI[of _ "pre @ post"] conjI)
    next
      case False
      from ch i obtain ds where ds: "chain (nib ?H) (buckets M ! i) ds" "distinct ds"
        "set ds = {a \<in> set as. hasher (key_of ?H a) mod bucket_capacity M = i}"
        by blast
      have c_ds: "c \<notin> set ds" using ds(3) hc False by auto
      have q_ds: "pre \<noteq> [] \<longrightarrow> last pre \<notin> set ds"
      proof
        assume "pre \<noteq> []"
        with q_in have "hasher (key_of ?H (last pre)) mod bucket_capacity M = idx"
          by (simp add: cs(3))
        then show "last pre \<notin> set ds" using False by (auto simp: ds(3))
      qed
      have "chain (nib ?H') (buckets M ! i) ds"
        using ds(1) c_ds q_ds by (subst chain_cong[of ds _ "nib ?H"]) (auto simp: nib')
      then have 1: "chain (nib ?H') (buckets M' ! i) ds"
        using False by (simp add: M'_buckets)
      have "set ds = set ds - {c}" using c_ds by simp
      then have 3: "set ds = {x \<in> set as'. hasher (key_of ?H' x) mod bucket_capacity M' = i}"
        unfolding setP ds(3) .
      from 1 ds(2) 3 show ?thesis by (intro exI[of _ ds] conjI)
    qed
  qed
  have inv0: "linv hasher s' this as'"
    unfolding linv_def
  proof (rule exI[of _ M'], rule exI[of _ h], rule exI[of _ t], intro conjI)
    show "objs s' this = Some M'" by (simp add: objs')
    show "order_head M' = Some h" "order_tail M' = Some t" by (simp_all add: M'_fields)
    show "distinct (h # as' @ [t])" by (rule dist_as')
    show "\<forall>x \<in> set (h # as' @ [t]). x < brk s'" using lt sub by (auto simp: brk')
    show "fpath (onx ?H') (h # as' @ [t])"
      unfolding full' onx' pp_def nn_def using fp ne dist' unfolding full by (rule fpath_unlink)
    show "bpath (opv ?H') (h # as' @ [t])"
      unfolding full' opv' pp_def nn_def using bp ne dist' unfolding full by (rule bpath_unlink)
    have "onx ?H' h \<noteq> None" using alloc neqs by (auto simp: onx' onx_def[of ?H])
    then show "?H' h \<noteq> None" by (auto simp: onx_def)
    have "opv ?H' t \<noteq> None" using alloc neqs by (auto simp: opv' opv_def[of ?H])
    then show "?H' t \<noteq> None" by (auto simp: opv_def)
    show "dat ?H' h = None" "dat ?H' t = None" using sent by (simp_all add: dat')
    show "\<forall>x \<in> set as'. dat ?H' x \<noteq> None" using ent by (auto simp: dat' set_as')
    show "distinct (map (key_of ?H') as')"
    proof -
      have "key_of ?H' x = key_of ?H x" if "x \<in> set as'" for x
        using that c_rem by (intro key') auto
      then have eq: "map (key_of ?H') as' = map (key_of ?H) as'"
        by (intro map_cong refl)
      show ?thesis unfolding eq by (rule keys_as')
    qed
    show "length (buckets M') = bucket_capacity M'" by (simp add: M'_fields)
    show "\<exists>j. bucket_capacity M' = INIT_CAPACITY * 2 ^ j" using pow by (simp add: M'_fields)
    show "num_elements M' = length as'" by (simp add: M'_fields)
    show "4 * length as' \<le> 3 * bucket_capacity M'"
      using load by (simp add: M'_fields len_as')
    show "\<forall>i < bucket_capacity M'. \<exists>cs. chain (nib ?H') (buckets M' ! i) cs \<and> distinct cs
       \<and> set cs = {x \<in> set as'. hasher (key_of ?H' x) mod bucket_capacity M' = i}"
      by (rule chains)
  qed
  have inv': "linv hasher s' this (remove1 c as)"
    using inv0 by (simp only: rem)
  have mo: "modifies_only s this as s'"
    using frame unfolding modifies_only_def owned_def
    by (auto simp: M h t brk' objs')
  have "heap s' c = None" by (simp add: heap' s4(9))
  then show ?thesis
    using run inv' dat' mo brk' objs' M'_fields(1,6)
    by (intro exI[of _ s'] exI[of _ M']) (simp add: M'_fields h t)
qed

subsection \<open>Operations in terms of the stored entries\<close>

lemma entries_cong:
  assumes "\<forall>a \<in> set as. dat (heap s') a = dat (heap s) a"
  shows "entries s' as = entries s as"
  using assms by (simp add: entries_def)

lemma entries_append: "entries s (as @ bs) = entries s as @ entries s bs"
  by (simp add: entries_def)

lemma linv_keys:
  assumes "linv hasher s this as"
  shows "fst ` set (entries s as) = key_of (heap s) ` set as" "distinct (map fst (entries s as))"
    "length (entries s as) = length as"
proof -
  from assms have ent: "\<forall>a \<in> set as. dat (heap s) a \<noteq> None"
    and keys: "distinct (map (key_of (heap s)) as)"
    by (auto elim: linvE)
  show "fst ` set (entries s as) = key_of (heap s) ` set as"
    using ent by (rule entries_key_image)
  have "map fst (entries s as) = map (key_of (heap s)) as"
    by (simp add: entries_def key_of_def)
  with keys show "distinct (map fst (entries s as))" by simp
  show "length (entries s as) = length as" by (simp add: entries_def)
qed

lemma lhm_insert_new_entries:
  assumes inv: "linv hasher s this as" and fresh: "k \<notin> fst ` set (entries s as)"
  shows "\<exists>s'. lhm_insert hasher this (k, v) s
          = Some ((\<lparr>node = Some (brk s), map_ptr = Some this\<rparr>, True), s')
      \<and> linv hasher s' this (as @ [brk s])
      \<and> entries s' (as @ [brk s]) = entries s as @ [(k, v)]
      \<and> modifies_only s this as s'
      \<and> brk s' = Suc (brk s)"
proof -
  from inv obtain M where M: "objs s this = Some M"
    and lt: "\<forall>a \<in> set as. a < brk s"
    by (auto elim!: linvE)
  have fresh': "k \<notin> key_of (heap s) ` set as"
    using fresh by (simp add: linv_keys(1)[OF inv])
  from lhm_insert_new[OF inv M fresh', of v] obtain s' where s':
    "lhm_insert hasher this (k, v) s = Some ((\<lparr>node = Some (brk s), map_ptr = Some this\<rparr>, True), s')"
    "linv hasher s' this (as @ [brk s])"
    "dat (heap s') = (dat (heap s))(brk s := Some (k, v))"
    "modifies_only s this as s'" "brk s' = Suc (brk s)"
    by blast
  have "brk s \<notin> set as" using lt by auto
  then have "entries s' as = entries s as"
    by (intro entries_cong) (auto simp: s'(3))
  then have "entries s' (as @ [brk s]) = entries s as @ [(k, v)]"
    by (simp add: entries_append) (simp add: entries_def s'(3))
  with s' show ?thesis by blast
qed

lemma lhm_erase_entries:
  assumes inv: "linv hasher s this as" and c: "c \<in> set as"
  shows "\<exists>s'. lhm_erase hasher this \<lparr>node = Some c, map_ptr = Some this\<rparr> s = Some (Inr (), s')
     \<and> linv hasher s' this (remove1 c as)
     \<and> entries s' (remove1 c as) = entries s (remove1 c as)
     \<and> heap s' c = None
     \<and> modifies_only s this as s'
     \<and> brk s' = brk s"
proof -
  from inv obtain M where M: "objs s this = Some M" and dist: "distinct as"
    by (auto elim!: linvE)
  from lhm_erase_linv[OF inv c M] obtain s' where s':
    "lhm_erase hasher this \<lparr>node = Some c, map_ptr = Some this\<rparr> s = Some (Inr (), s')"
    "linv hasher s' this (remove1 c as)"
    "dat (heap s') = (dat (heap s))(c := None)"
    "heap s' c = None" "modifies_only s this as s'" "brk s' = brk s"
    by blast
  have "c \<notin> set (remove1 c as)" using dist by simp
  then have "entries s' (remove1 c as) = entries s (remove1 c as)"
    by (intro entries_cong) (auto simp: s'(3))
  with s' show ?thesis by blast
qed

subsection \<open>erase: the other outcomes\<close>

lemma erase_loop_absent:
  assumes "chain (nib (heap s)) p cs" "c \<notin> set cs"
  shows "erase_loop s (Some c) prev p = None"
  using assms
proof (induction cs arbitrary: p prev)
  case Nil
  then show ?case
    by (subst erase_loop.simps) (simp add: load_Node_def load_def)
next
  case (Cons a cs)
  from Cons.prems obtain r where r: "p = Some a" "nib (heap s) a = Some r" "chain (nib (heap s)) r cs"
    by (auto simp: chain_Cons)
  from nib_SomeD[OF r(2)] obtain n where n: "heap s a = Some n" "data n \<noteq> None" "next_in_bucket n = r"
    by auto
  have "erase_loop s (Some c) (Some a) r = None"
    using r(3) Cons.prems(2) by (intro Cons.IH) auto
  then show ?case
    using Cons.prems(2)
    by (subst erase_loop.simps) (auto simp: r(1) load_Node_def load_def n)
qed

lemma lhm_erase_throws:
  assumes "objs s this = Some M"
  shows "lhm_erase hasher this pos s = Some (Inl e, s') \<longleftrightarrow>
     e = invalid_iterator \<and> s' = s \<and>
     (map_ptr pos \<noteq> Some this \<or> node pos = None \<or> node pos = order_tail M \<or> node pos = order_head M)"
  by (auto simp: lhm_erase_def assms Let_def split: bind_splits if_splits)

lemma lhm_erase_success:
  assumes inv: "linv hasher s this as"
    and ok: "lhm_erase hasher this pos s = Some (Inr (), s')"
  shows "\<exists>c \<in> set as. pos = \<lparr>node = Some c, map_ptr = Some this\<rparr>"
proof -
  from inv obtain M where M: "objs s this = Some M"
    and len: "length (buckets M) = bucket_capacity M"
    and pow: "\<exists>j. bucket_capacity M = INIT_CAPACITY * 2 ^ j"
    and ch: "\<forall>i < bucket_capacity M. \<exists>cs. chain (nib (heap s)) (buckets M ! i) cs \<and> distinct cs
             \<and> set cs = {a \<in> set as. hasher (key_of (heap s) a) mod bucket_capacity M = i}"
    by (auto elim!: linvE)
  have pos: "0 < bucket_capacity M" using pow by (rule capacity_pos)
  from ok have mp: "map_ptr pos = Some this" and "node pos \<noteq> None"
    by (auto simp: lhm_erase_def split: if_splits)
  then obtain c where c: "node pos = Some c" by auto
  have pos_eq: "pos = \<lparr>node = Some c, map_ptr = Some this\<rparr>"
    using mp c by (cases pos) simp
  from ok obtain n kv where n: "load_Node s (Some c) = Some n" "data n = Some kv"
    and loop: "erase_loop s (Some c) None (buckets M ! (hasher (fst kv) mod bucket_capacity M)) \<noteq> None"
    using pos
    by (auto simp: lhm_erase_def M mp c Let_def get_bucket_index_def nth_opt_def len
        split: bind_splits if_splits)
  let ?i = "hasher (fst kv) mod bucket_capacity M"
  have "?i < bucket_capacity M" using pos by simp
  with ch obtain cs where cs: "chain (nib (heap s)) (buckets M ! ?i) cs"
     "set cs = {a \<in> set as. hasher (key_of (heap s) a) mod bucket_capacity M = ?i}"
    by blast
  have "c \<in> set cs"
    using erase_loop_absent[OF cs(1), of c None] loop by blast
  then have "c \<in> set as" by (simp add: cs(2))
  with pos_eq show ?thesis by blast
qed

lemma map_remove1_inj:
  assumes "inj_on f (set as)" "c \<in> set as"
  shows "map f (remove1 c as) = remove1 (f c) (map f as)"
  using assms
proof (induction as)
  case Nil
  then show ?case by simp
next
  case (Cons a as)
  show ?case
  proof (cases "a = c")
    case True
    then show ?thesis by simp
  next
    case False
    with Cons.prems have "f a \<noteq> f c" "c \<in> set as" "inj_on f (set as)"
      by (auto simp: inj_on_def)
    with Cons.IH False show ?thesis by simp
  qed
qed

lemma entries_remove1:
  assumes inv: "linv hasher s this as" and c: "c \<in> set as"
  shows "entries s (remove1 c as) = remove1 (the (dat (heap s) c)) (entries s as)"
proof -
  from inv have keys: "distinct (map (key_of (heap s)) as)" by (auto elim: linvE)
  have "inj_on (\<lambda>a. the (dat (heap s) a)) (set as)"
  proof (rule inj_onI)
    fix x y assume "x \<in> set as" "y \<in> set as" "the (dat (heap s) x) = the (dat (heap s) y)"
    then have "key_of (heap s) x = key_of (heap s) y" by (simp add: key_of_def)
    with keys \<open>x \<in> set as\<close> \<open>y \<in> set as\<close> show "x = y"
      by (auto simp: distinct_map inj_on_def)
  qed
  from map_remove1_inj[OF this c] show ?thesis by (simp add: entries_def)
qed

lemma lhm_size_linv:
  assumes "linv hasher s this as"
  shows "lhm_size this s = Some (length as)" "lhm_empty this s = Some (as = [])"
  using assms by (auto simp: lhm_size_def lhm_empty_def elim!: linvE)

lemma run_ops_linv:
  assumes "linv hasher s this as"
  shows "\<exists>i e s' as'. run_ops hasher this ops s = Some (i, e, s') \<and> linv hasher s' this as'
     \<and> length as' + e = length as + i"
  using assms
proof (induction ops arbitrary: s as)
  case Nil
  then show ?case by auto
next
  case (Cons x ops)
  show ?case
  proof (cases x)
    case (Insert k v)
    show ?thesis
    proof (cases "k \<in> fst ` set (entries s as)")
      case True
      then obtain v0 where "(k, v0) \<in> set (entries s as)" by auto
      with Cons.prems have "\<exists>a \<in> set as. dat (heap s) a = Some (k, v0)"
        by (auto elim!: linvE dest!: entries_memD)
      then obtain a where a: "a \<in> set as" "key_of (heap s) a = k" by (auto simp: key_of_def)
      from lhm_insert_existing[OF Cons.prems a(1), of v] a(2)
      have ins: "lhm_insert hasher this (k, v) s = Some ((\<lparr>node = Some a, map_ptr = Some this\<rparr>, False), s)"
        by simp
      from Cons.IH[OF Cons.prems] obtain i e s' as' where
        "run_ops hasher this ops s = Some (i, e, s')" "linv hasher s' this as'"
        "length as' + e = length as + i"
        by blast
      then show ?thesis
        by (intro exI[of _ i] exI[of _ e] exI[of _ s'] exI[of _ as']) (simp add: Insert ins)
    next
      case False
      from lhm_insert_new_entries[OF Cons.prems False, of v] obtain s1 where s1:
        "lhm_insert hasher this (k, v) s = Some ((\<lparr>node = Some (brk s), map_ptr = Some this\<rparr>, True), s1)"
        "linv hasher s1 this (as @ [brk s])"
        by blast
      from Cons.IH[OF s1(2)] obtain i e s' as' where
        "run_ops hasher this ops s1 = Some (i, e, s')" "linv hasher s' this as'"
        "length as' + e = length (as @ [brk s]) + i"
        by blast
      then show ?thesis
        by (intro exI[of _ "Suc i"] exI[of _ e] exI[of _ s'] exI[of _ as']) (simp add: Insert s1(1))
    qed
  next
    case (Erase k)
    from Cons.prems obtain M where M: "objs s this = Some M" by (auto elim: linvE)
    show ?thesis
    proof (cases "k \<in> key_of (heap s) ` set as")
      case True
      then obtain c where c: "c \<in> set as" "key_of (heap s) c = k" by auto
      have find: "lhm_find hasher this k s = Some \<lparr>node = Some c, map_ptr = Some this\<rparr>"
        using lhm_find_present[OF Cons.prems c(1)] c(2) by simp
      from lhm_erase_entries[OF Cons.prems c(1)] obtain s1 where s1:
        "lhm_erase hasher this \<lparr>node = Some c, map_ptr = Some this\<rparr> s = Some (Inr (), s1)"
        "linv hasher s1 this (remove1 c as)"
        by blast
      from Cons.IH[OF s1(2)] obtain i e s' as' where r:
        "run_ops hasher this ops s1 = Some (i, e, s')" "linv hasher s' this as'"
        "length as' + e = length (remove1 c as) + i"
        by blast
      have "length as' + Suc e = length as + i"
        using r(3) c(1) length_pos_if_in_set[OF c(1)] by (simp add: length_remove1)
      with r(1,2) show ?thesis
        by (intro exI[of _ i] exI[of _ "Suc e"] exI[of _ s'] exI[of _ as']) (simp add: Erase find s1(1))
    next
      case False
      have find: "lhm_find hasher this k s = Some \<lparr>node = order_tail M, map_ptr = Some this\<rparr>"
        using lhm_find_absent[OF Cons.prems False] by (simp add: lhm_end_linv[OF M])
      have er: "lhm_erase hasher this \<lparr>node = order_tail M, map_ptr = Some this\<rparr> s = Some (Inl invalid_iterator, s)"
        by (simp add: lhm_erase_throws[OF M])
      from Cons.IH[OF Cons.prems] obtain i e s' as' where
        "run_ops hasher this ops s = Some (i, e, s')" "linv hasher s' this as'"
        "length as' + e = length as + i"
        by blast
      then show ?thesis
        by (intro exI[of _ i] exI[of _ e] exI[of _ s'] exI[of _ as']) (simp add: Erase find er)
    qed
  qed
qed

subsection \<open>Sequences of insertions\<close>

lemma insert_all_linv:
  assumes "linv hasher s this as" "distinct (map fst kvs)"
    and "fst ` set kvs \<inter> fst ` set (entries s as) = {}"
  shows "\<exists>s' bs. insert_all hasher this kvs s = Some (replicate (length kvs) True, s')
     \<and> linv hasher s' this (as @ bs) \<and> entries s' (as @ bs) = entries s as @ kvs
     \<and> entries s' as = entries s as"
  using assms
proof (induction kvs arbitrary: s as)
  case Nil
  then show ?case by (intro exI[of _ s] exI[of _ "[]"]) simp
next
  case (Cons kv kvs)
  obtain k v where kv: "kv = (k, v)" by (cases kv)
  have fresh: "k \<notin> fst ` set (entries s as)" using Cons.prems(3) by (auto simp: kv)
  from lhm_insert_new_entries[OF Cons.prems(1) fresh, of v] obtain s1 where s1:
    "lhm_insert hasher this (k, v) s = Some ((\<lparr>node = Some (brk s), map_ptr = Some this\<rparr>, True), s1)"
    "linv hasher s1 this (as @ [brk s])"
    "entries s1 (as @ [brk s]) = entries s as @ [(k, v)]"
    by blast
  have "length (entries s1 as) = length (entries s as)" by (simp add: entries_def)
  then have e1: "entries s1 as = entries s as" using s1(3) by (simp add: entries_append)
  have "\<exists>s' bs. insert_all hasher this kvs s1 = Some (replicate (length kvs) True, s')
     \<and> linv hasher s' this ((as @ [brk s]) @ bs)
     \<and> entries s' ((as @ [brk s]) @ bs) = entries s1 (as @ [brk s]) @ kvs
     \<and> entries s' (as @ [brk s]) = entries s1 (as @ [brk s])"
  proof (rule Cons.IH[OF s1(2)])
    show "distinct (map fst kvs)" using Cons.prems(2) by simp
    show "fst ` set kvs \<inter> fst ` set (entries s1 (as @ [brk s])) = {}"
      using Cons.prems(2,3) by (auto simp: s1(3) kv)
  qed
  then obtain s' bs where r: "insert_all hasher this kvs s1 = Some (replicate (length kvs) True, s')"
    "linv hasher s' this ((as @ [brk s]) @ bs)"
    "entries s' ((as @ [brk s]) @ bs) = entries s1 (as @ [brk s]) @ kvs"
    "entries s' (as @ [brk s]) = entries s1 (as @ [brk s])"
    by blast
  have "length (entries s' as) = length (entries s1 as)" by (simp add: entries_def)
  then have "entries s' as = entries s as"
    using r(4) e1 by (simp add: entries_append)
  then show ?case
    using r(1-3)
    by (intro exI[of _ s'] exI[of _ "brk s # bs"]) (simp add: kv s1(1) s1(3))
qed

lemma it_pre_inc_last:
  assumes "linv hasher s this (as @ [a])"
  shows "\<exists>e. lhm_end this s = Some e \<and> it_pre_inc \<lparr>node = Some a, map_ptr = Some this\<rparr> s = Some (Inr e)"
proof -
  from assms obtain M h t where M: "objs s this = Some M" and t: "order_tail M = Some t"
    and dist: "distinct (h # (as @ [a]) @ [t])"
    and fp: "fpath (onx (heap s)) (h # (as @ [a]) @ [t])"
    and bp: "bpath (opv (heap s)) (h # (as @ [a]) @ [t])"
    by (auto elim!: linvE)
  from linv_last_facts(2)[OF dist fp bp] have "onx (heap s) a = Some (Some t)" by simp
  then obtain n where n: "heap s a = Some n" "order_next n = Some t" by (auto dest: onx_SomeD)
  have "a \<noteq> t" using dist by auto
  then show ?thesis
    by (simp add: lhm_end_def M t it_pre_inc_def load_obj_def load_def n)
qed

lemma find_entry:
  assumes inv: "linv hasher s this as" and kv: "(k, v) \<in> set (entries s as)"
  shows "\<exists>a \<in> set as. lhm_find hasher this k s = Some \<lparr>node = Some a, map_ptr = Some this\<rparr>
      \<and> ref_data s (Some a) = Some (k, v)"
proof -
  from inv have ent: "\<forall>a \<in> set as. dat (heap s) a \<noteq> None" by (auto elim: linvE)
  from entries_memD[OF kv ent] obtain a where a: "a \<in> set as" "dat (heap s) a = Some (k, v)"
    by blast
  then have "key_of (heap s) a = k" by (simp add: key_of_def)
  with lhm_find_present[OF inv a(1)] a show ?thesis by (auto simp: ref_data_dat)
qed

subsection \<open>Writing a value through a reference\<close>

lemma assign_second_linv:
  assumes inv: "linv hasher s this as" and ok: "assign_second p v s = Some s'"
  shows "linv hasher s' this as"
    and "\<exists>a k v0. p = Some a \<and> dat (heap s) a = Some (k, v0)
           \<and> dat (heap s') = (dat (heap s))(a := Some (k, v))"
    and "objs s' = objs s" and "brk s' = brk s"
    and "\<forall>x. p \<noteq> Some x \<longrightarrow> heap s' x = heap s x"
proof -
  from ok obtain a n k v0 where a: "p = Some a" "heap s a = Some n" "data n = Some (k, v0)"
    and s': "s' = s\<lparr>heap := (heap s)(a \<mapsto> n\<lparr>data := Some (k, v)\<rparr>)\<rparr>"
    by (cases p) (auto simp: assign_second_def load_Node_def load_def split: option.splits if_splits)
  have onx': "onx (heap s') = onx (heap s)" by (auto simp: s' onx_def a fun_eq_iff)
  have opv': "opv (heap s') = opv (heap s)" by (auto simp: s' opv_def a fun_eq_iff)
  have nib': "nib (heap s') = nib (heap s)" by (auto simp: s' nib_def a fun_eq_iff)
  have dat': "dat (heap s') = (dat (heap s))(a := Some (k, v))" by (auto simp: s' dat_def fun_eq_iff)
  have da: "dat (heap s) a = Some (k, v0)" by (simp add: dat_def a)
  have key': "key_of (heap s') = key_of (heap s)"
    by (auto simp: key_of_def dat' da fun_eq_iff)
  have none: "\<And>x. dat (heap s') x = None \<longleftrightarrow> dat (heap s) x = None"
    by (auto simp: dat' da)
  have alloc: "\<And>x. heap s' x = None \<longleftrightarrow> heap s x = None"
    by (auto simp: s' a)
  show "linv hasher s' this as"
    using inv unfolding linv_def onx' opv' nib' key' none alloc by (simp add: s')
  show "\<exists>a k v0. p = Some a \<and> dat (heap s) a = Some (k, v0)
           \<and> dat (heap s') = (dat (heap s))(a := Some (k, v))"
    using a(1) da dat' by blast
  show "objs s' = objs s" "brk s' = brk s" by (simp_all add: s')
  show "\<forall>x. p \<noteq> Some x \<longrightarrow> heap s' x = heap s x" by (auto simp: s' a(1))
qed

lemma assign_second_entry:
  assumes inv: "linv hasher s this as" and a: "a \<in> set as"
  shows "\<exists>s'. assign_second (Some a) v s = Some s' \<and> linv hasher s' this as
     \<and> ref_data s' (Some a) = Some (key_of (heap s) a, v)
     \<and> key_of (heap s') a = key_of (heap s) a"
proof -
  from inv a have "dat (heap s) a \<noteq> None" by (auto elim: linvE)
  then obtain n kv where n: "heap s a = Some n" "data n = Some kv"
    by (auto dest: dat_SomeD)
  define s' where "s' = s\<lparr>heap := (heap s)(a \<mapsto> n\<lparr>data := Some (fst kv, v)\<rparr>)\<rparr>"
  have run: "assign_second (Some a) v s = Some s'"
    by (simp add: assign_second_def load_Node_def load_def n s'_def)
  have "linv hasher s' this as" using inv run by (rule assign_second_linv)
  moreover have "ref_data s' (Some a) = Some (key_of (heap s) a, v)"
    by (simp add: ref_data_def load_def s'_def key_of_def dat_def n)
  moreover have "key_of (heap s') a = key_of (heap s) a"
    by (simp add: s'_def key_of_def dat_def n)
  ultimately show ?thesis using run by blast
qed

subsection \<open>clear\<close>

lemma clear_loop_spec:
  assumes "fpath (onx (heap s)) (rest @ [t])" "distinct (rest @ [t])"
  shows "clear_loop (Some t) (Some (hd (rest @ [t]))) s
     = Some (s\<lparr>heap := (\<lambda>x. if x \<in> set rest then None else heap s x)\<rparr>)"
  using assms
proof (induction rest arbitrary: s)
  case Nil
  then show ?case by (subst clear_loop.simps) simp
next
  case (Cons a rest)
  have "onx (heap s) a = Some (Some (hd (rest @ [t])))"
    using Cons.prems(1) by (cases rest) auto
  then obtain n where n: "heap s a = Some n" "order_next n = Some (hd (rest @ [t]))"
    by (auto dest: onx_SomeD)
  define s1 where "s1 = s\<lparr>heap := (heap s)(a := None)\<rparr>"
  have a_rest: "a \<notin> set rest" "a \<noteq> t" using Cons.prems(2) by auto
  have "fpath (onx (heap s1)) (rest @ [t]) = fpath (onx (heap s)) (rest @ [t])"
  proof (rule fpath_cong, intro ballI)
    fix x assume "x \<in> set (butlast (rest @ [t]))"
    then have "x \<noteq> a" using a_rest by auto
    then show "onx (heap s1) x = onx (heap s) x" by (simp add: s1_def onx_def)
  qed
  then have fp1: "fpath (onx (heap s1)) (rest @ [t])"
    using Cons.prems(1) by (auto dest: fpath_tl)
  have IH: "clear_loop (Some t) (Some (hd (rest @ [t]))) s1
     = Some (s1\<lparr>heap := (\<lambda>x. if x \<in> set rest then None else heap s1 x)\<rparr>)"
    using fp1 Cons.prems(2) by (intro Cons.IH) auto
  have eq: "s1\<lparr>heap := (\<lambda>x. if x \<in> set rest then None else heap s1 x)\<rparr>
      = s\<lparr>heap := (\<lambda>x. if x \<in> set (a # rest) then None else heap s x)\<rparr>"
    by (auto simp: s1_def fun_eq_iff)
  show ?case
    using a_rest
    by (subst clear_loop.simps)
       (simp add: load_def n delete_node_def s1_def[symmetric] IH eq)
qed

lemma lhm_clear_linv:
  assumes inv: "linv hasher s this as" and M: "objs s this = Some M"
  shows "\<exists>s' M'. lhm_clear this s = Some s' \<and> linv hasher s' this []
     \<and> modifies_only s this as s' \<and> brk s' = brk s
     \<and> (\<forall>a \<in> set as. heap s' a = None)
     \<and> objs s' this = Some M' \<and> bucket_capacity M' = bucket_capacity M
     \<and> order_head M' = order_head M \<and> order_tail M' = order_tail M"
proof -
  let ?H = "heap s"
  from inv M obtain h t where h: "order_head M = Some h" and t: "order_tail M = Some t"
    and dist: "distinct (h # as @ [t])" and lt: "\<forall>a \<in> set (h # as @ [t]). a < brk s"
    and fp: "fpath (onx ?H) (h # as @ [t])"
    and alloc: "heap s h \<noteq> None" "heap s t \<noteq> None"
    and sent: "dat ?H h = None" "dat ?H t = None"
    and len: "length (buckets M) = bucket_capacity M"
    and pow: "\<exists>j. bucket_capacity M = INIT_CAPACITY * 2 ^ j"
    by (auto elim!: linvE)
  from alloc obtain n_h n_t where nh: "?H h = Some n_h" and nt: "?H t = Some n_t" by auto
  have dh: "data n_h = None" "data n_t = None" using sent by (simp_all add: dat_def nh nt)
  have onh: "order_next n_h = Some (hd (as @ [t]))"
    using fpath_hd[OF fp] by (simp add: onx_def nh)
  define s1 where "s1 = s\<lparr>heap := (\<lambda>x. if x \<in> set as then None else ?H x)\<rparr>"
  have loop: "clear_loop (Some t) (Some (hd (as @ [t]))) s = Some s1"
    unfolding s1_def using fpath_tl[OF fp] dist by (intro clear_loop_spec) auto
  have hs: "h \<notin> set as" "t \<notin> set as" "h \<noteq> t" using dist by auto
  define M' where "M' = M\<lparr>buckets := replicate (bucket_capacity M) None, num_elements := 0\<rparr>"
  define s' where "s' = s\<lparr>heap := (\<lambda>x. if x \<in> set as then None else ?H x)
        (h \<mapsto> n_h\<lparr>order_next := Some t\<rparr>, t \<mapsto> n_t\<lparr>order_prev := Some h\<rparr>),
      objs := (objs s)(this \<mapsto> M')\<rparr>"
  have run: "lhm_clear this s = Some s'"
    using hs len
    by (simp add: lhm_clear_def M h t load_def nh onh loop set_order_next_def set_order_prev_def
        s1_def nt set_obj_def s'_def M'_def)
  have inv': "linv hasher s' this []"
    unfolding linv_def
  proof (rule exI[of _ M'], rule exI[of _ h], rule exI[of _ t], intro conjI)
    show "\<forall>i < bucket_capacity M'. \<exists>cs. chain (nib (heap s')) (buckets M' ! i) cs \<and> distinct cs
             \<and> set cs = {x \<in> set []. hasher (key_of (heap s') x) mod bucket_capacity M' = i}"
      by (simp add: M'_def)
  qed (use hs lt pow dh in \<open>simp_all add: s'_def M'_def h t onx_def opv_def dat_def\<close>)
  have mo: "modifies_only s this as s'"
    unfolding modifies_only_def owned_def by (auto simp: s'_def M h t)
  have "\<forall>a \<in> set as. heap s' a = None" using hs by (auto simp: s'_def)
  then show ?thesis
    using run inv' mo
    by (intro exI[of _ s'] exI[of _ M']) (simp add: s'_def M'_def)
qed

subsection \<open>Frame: a store change that leaves the nodes of a map alone\<close>

lemma linv_frame:
  assumes inv: "linv hasher s m as"
    and objs: "objs s' m = objs s m"
    and heap: "\<forall>x \<in> owned s m as. heap s' x = heap s x"
    and brk: "brk s \<le> brk s'"
  shows "linv hasher s' m as" "entries s' as = entries s as" "owned s' m as = owned s m as"
proof -
  from inv obtain M h t where M: "objs s m = Some M" and h: "order_head M = Some h"
    and t: "order_tail M = Some t"
    and dist: "distinct (h # as @ [t])" and lt: "\<forall>a \<in> set (h # as @ [t]). a < brk s"
    and fp: "fpath (onx (heap s)) (h # as @ [t])" and bp: "bpath (opv (heap s)) (h # as @ [t])"
    and alloc: "heap s h \<noteq> None" "heap s t \<noteq> None"
    and sent: "dat (heap s) h = None" "dat (heap s) t = None"
    and ent: "\<forall>a \<in> set as. dat (heap s) a \<noteq> None"
    and keys: "distinct (map (key_of (heap s)) as)"
    and len: "length (buckets M) = bucket_capacity M"
    and pow: "\<exists>j. bucket_capacity M = INIT_CAPACITY * 2 ^ j"
    and num: "num_elements M = length as"
    and load: "4 * length as \<le> 3 * bucket_capacity M"
    and ch: "\<forall>i < bucket_capacity M. \<exists>cs. chain (nib (heap s)) (buckets M ! i) cs \<and> distinct cs
             \<and> set cs = {a \<in> set as. hasher (key_of (heap s) a) mod bucket_capacity M = i}"
    by (auto elim!: linvE)
  have own: "owned s m as = set (h # as @ [t])" by (auto simp: owned_def M h t)
  show own': "owned s' m as = owned s m as" by (simp add: owned_def objs)
  have same: "\<And>x. x \<in> set (h # as @ [t]) \<Longrightarrow> heap s' x = heap s x"
    using heap unfolding own by blast
  have p: "\<And>x. x \<in> set (h # as @ [t]) \<Longrightarrow> onx (heap s') x = onx (heap s) x"
    "\<And>x. x \<in> set (h # as @ [t]) \<Longrightarrow> opv (heap s') x = opv (heap s) x"
    "\<And>x. x \<in> set (h # as @ [t]) \<Longrightarrow> dat (heap s') x = dat (heap s) x"
    "\<And>x. x \<in> set (h # as @ [t]) \<Longrightarrow> nib (heap s') x = nib (heap s) x"
    "\<And>x. x \<in> set (h # as @ [t]) \<Longrightarrow> key_of (heap s') x = key_of (heap s) x"
    by (simp_all add: onx_def opv_def dat_def nib_def key_of_def same)
  show ent_eq: "entries s' as = entries s as"
    by (intro entries_cong) (simp add: p(3))
  have fp': "fpath (onx (heap s')) (h # as @ [t])"
  proof -
    have "fpath (onx (heap s')) (h # as @ [t]) = fpath (onx (heap s)) (h # as @ [t])"
      by (rule fpath_cong) (meson in_set_butlastD p(1))
    with fp show ?thesis by simp
  qed
  have bp': "bpath (opv (heap s')) (h # as @ [t])"
  proof -
    have "bpath (opv (heap s')) (h # as @ [t]) = bpath (opv (heap s)) (h # as @ [t])"
      by (rule bpath_cong) (meson list.set_sel(2) list.discI p(2))
    with bp show ?thesis by simp
  qed
  have keymap: "map (key_of (heap s')) as = map (key_of (heap s)) as"
    by (intro map_cong refl) (simp add: p(5))
  have chains: "\<forall>i < bucket_capacity M. \<exists>cs. chain (nib (heap s')) (buckets M ! i) cs \<and> distinct cs
             \<and> set cs = {a \<in> set as. hasher (key_of (heap s') a) mod bucket_capacity M = i}"
  proof (intro allI impI)
    fix i assume "i < bucket_capacity M"
    with ch obtain cs where cs: "chain (nib (heap s)) (buckets M ! i) cs" "distinct cs"
      "set cs = {a \<in> set as. hasher (key_of (heap s) a) mod bucket_capacity M = i}"
      by blast
    have sub: "set cs \<subseteq> set as" using cs(3) by auto
    have 1: "chain (nib (heap s')) (buckets M ! i) cs"
      using cs(1) sub by (subst chain_cong[of cs _ "nib (heap s)"]) (auto simp: p(4))
    have 3: "set cs = {a \<in> set as. hasher (key_of (heap s') a) mod bucket_capacity M = i}"
      unfolding cs(3) using p(5) by auto
    from 1 cs(2) 3 show "\<exists>cs. chain (nib (heap s')) (buckets M ! i) cs \<and> distinct cs
             \<and> set cs = {a \<in> set as. hasher (key_of (heap s') a) mod bucket_capacity M = i}"
      by (intro exI[of _ cs] conjI)
  qed
  show "linv hasher s' m as"
    unfolding linv_def
  proof (rule exI[of _ M], rule exI[of _ h], rule exI[of _ t], intro conjI)
    show "objs s' m = Some M" by (simp add: objs M)
    show "\<forall>a \<in> set (h # as @ [t]). a < brk s'" using lt brk by auto
    show "heap s' h \<noteq> None" "heap s' t \<noteq> None" using alloc by (simp_all add: same)
    show "dat (heap s') h = None" "dat (heap s') t = None" using sent by (simp_all add: p(3))
    show "\<forall>a \<in> set as. dat (heap s') a \<noteq> None" using ent by (simp add: p(3))
    show "distinct (map (key_of (heap s')) as)" unfolding keymap by (rule keys)
  qed (fact h t dist fp' bp' len pow num load chains)+
qed

lemma separate_frame:
  assumes sep: "separate hasher s this as other bs"
    and mo: "modifies_only s this as s'"
  shows "linv hasher s' other bs" "entries s' bs = entries s bs" "owned s' other bs = owned s other bs"
proof -
  from sep have ne: "this \<noteq> other" and inv: "linv hasher s other bs"
    and disj: "owned s this as \<inter> owned s other bs = {}"
    by (simp_all add: separate_def)
  from inv obtain M h t where M: "objs s other = Some M" "order_head M = Some h" "order_tail M = Some t"
    and lt: "\<forall>a \<in> set (h # bs @ [t]). a < brk s"
    by (auto elim!: linvE)
  have own: "owned s other bs = set (h # bs @ [t])" by (auto simp: owned_def M)
  have 1: "objs s' other = objs s other" using mo ne by (auto simp: modifies_only_def)
  have 2: "\<forall>x \<in> owned s other bs. heap s' x = heap s x"
  proof
    fix x assume x: "x \<in> owned s other bs"
    then have "x < brk s" using lt own by auto
    moreover have "x \<notin> owned s this as" using x disj by auto
    ultimately show "heap s' x = heap s x" using mo by (simp add: modifies_only_def)
  qed
  have 3: "brk s \<le> brk s'" using mo by (simp add: modifies_only_def)
  show "linv hasher s' other bs" "entries s' bs = entries s bs" "owned s' other bs = owned s other bs"
    using linv_frame[OF inv 1 2 3] by simp_all
qed

subsection \<open>Every mutation preserves the invariant\<close>

lemma owned_linv:
  assumes "linv hasher s m as" "objs s m = Some M"
  shows "owned s m as = set as \<union> set_option (order_head M) \<union> set_option (order_tail M)"
  using assms by (auto simp: owned_def)

lemma modifies_only_refl: "modifies_only s this as s"
  by (simp add: modifies_only_def)

lemma modifies_only_trans:
  assumes "modifies_only s this as s1" "modifies_only s1 this as1 s2"
    and "owned s1 this as1 \<subseteq> owned s this as \<union> {x. brk s \<le> x}"
  shows "modifies_only s this as s2"
  using assms unfolding modifies_only_def
  by (auto simp: subset_iff) (metis le_trans not_less)+

lemma lhm_index_cases:
  assumes inv: "linv hasher s this as"
  shows "(\<exists>a \<in> set as. key_of (heap s) a = k \<and> lhm_index hasher dflt this k s = Some (Some a, s))
       \<or> (k \<notin> fst ` set (entries s as) \<and>
           (\<exists>s1. lhm_insert hasher this (k, dflt) s
                   = Some ((\<lparr>node = Some (brk s), map_ptr = Some this\<rparr>, True), s1)
               \<and> lhm_index hasher dflt this k s = Some (Some (brk s), s1)))"
proof (cases "k \<in> key_of (heap s) ` set as")
  case True
  then obtain a where a: "a \<in> set as" "key_of (heap s) a = k" by auto
  from inv obtain M where M: "objs s this = Some M" by (auto elim: linvE)
  have "order_tail M \<noteq> Some a" using linv_tail_notin[OF inv M a(1)] by simp
  then have "lhm_index hasher dflt this k s = Some (Some a, s)"
    using lhm_find_present[OF inv a(1)] by (simp add: lhm_index_def a(2) lhm_end_linv[OF M])
  with a show ?thesis by blast
next
  case False
  from inv obtain M where M: "objs s this = Some M" by (auto elim: linvE)
  have fresh: "k \<notin> fst ` set (entries s as)" using False by (simp add: linv_keys(1)[OF inv])
  from lhm_insert_new_entries[OF inv fresh, of dflt] obtain s1 where s1:
    "lhm_insert hasher this (k, dflt) s = Some ((\<lparr>node = Some (brk s), map_ptr = Some this\<rparr>, True), s1)"
    by blast
  have "lhm_index hasher dflt this k s = Some (Some (brk s), s1)"
    using lhm_find_absent[OF inv False] by (simp add: lhm_index_def lhm_end_linv[OF M] s1)
  with fresh s1 show ?thesis by blast
qed

lemma lhm_at_cases:
  assumes inv: "linv hasher s this as"
  shows "(\<exists>a \<in> set as. key_of (heap s) a = k \<and> lhm_at hasher this k s = Some (Inr (Some a)))
       \<or> (k \<notin> fst ` set (entries s as) \<and> lhm_at hasher this k s = Some (Inl index_out_of_bound))"
proof (cases "k \<in> key_of (heap s) ` set as")
  case True
  then obtain a where a: "a \<in> set as" "key_of (heap s) a = k" by auto
  from inv obtain M where M: "objs s this = Some M" by (auto elim: linvE)
  have "order_tail M \<noteq> Some a" using linv_tail_notin[OF inv M a(1)] by simp
  then have "lhm_at hasher this k s = Some (Inr (Some a))"
    using lhm_find_present[OF inv a(1)]
    by (simp add: lhm_at_def a(2) lhm_end_linv[OF M] it_arrow_def)
  with a show ?thesis by blast
next
  case False
  from inv obtain M where M: "objs s this = Some M" by (auto elim: linvE)
  have fresh: "k \<notin> fst ` set (entries s as)" using False by (simp add: linv_keys(1)[OF inv])
  have "lhm_at hasher this k s = Some (Inl index_out_of_bound)"
    using lhm_find_absent[OF inv False] by (simp add: lhm_at_def lhm_end_linv[OF M])
  with fresh show ?thesis by blast
qed

lemma assign_own_entry:
  assumes inv: "linv hasher s this as" and M: "objs s this = Some M" and a: "a \<in> set as"
    and ok: "assign_second (Some a) v s = Some s'"
  shows "linv hasher s' this as \<and> modifies_only s this as s' \<and> objs s' this = Some M
     \<and> brk s' = brk s \<and> owned s' this as = owned s this as"
proof -
  note r = assign_second_linv[OF inv ok]
  have "modifies_only s this as s'"
    using r(3,4,5) a by (auto simp: modifies_only_def owned_def)
  moreover have "owned s' this as = owned s this as" by (simp add: owned_def r(3))
  ultimately show ?thesis using r(1,3,4) M by simp
qed

lemma apply_mut_linv:
  assumes inv: "linv hasher s this as" and M: "objs s this = Some M"
    and run: "apply_mut hasher dflt this u s = Some s'"
  shows "\<exists>as' M'. linv hasher s' this as' \<and> modifies_only s this as s'
     \<and> owned s' this as' \<subseteq> owned s this as \<union> {x. brk s \<le> x}
     \<and> objs s' this = Some M'
     \<and> (bucket_capacity M' = bucket_capacity M \<or> bucket_capacity M' = bucket_capacity M * 2)"
proof -
  have keep: "\<exists>as' M'. linv hasher s this as' \<and> modifies_only s this as s
     \<and> owned s this as' \<subseteq> owned s this as \<union> {x. brk s \<le> x}
     \<and> objs s this = Some M'
     \<and> (bucket_capacity M' = bucket_capacity M \<or> bucket_capacity M' = bucket_capacity M * 2)"
    using inv M by (intro exI[of _ as] exI[of _ M]) (simp add: modifies_only_refl)
  note own = owned_linv[OF inv M]
  show ?thesis
  proof (cases u)
    case (M_insert k v)
    show ?thesis
    proof (cases "k \<in> key_of (heap s) ` set as")
      case True
      then obtain a where a: "a \<in> set as" "key_of (heap s) a = k" by auto
      from lhm_insert_existing[OF inv a(1), of v] run have "s' = s"
        by (simp add: M_insert a(2))
      with keep show ?thesis by simp
    next
      case False
      from lhm_insert_new[OF inv M False, of v] run obtain M' where r:
        "linv hasher s' this (as @ [brk s])" "modifies_only s this as s'"
        "objs s' this = Some M'"
        "bucket_capacity M' = (if 4 * (num_elements M + 1) > 3 * bucket_capacity M
                                then bucket_capacity M * 2 else bucket_capacity M)"
        "order_head M' = order_head M" "order_tail M' = order_tail M"
        by (auto simp: M_insert)
      have "owned s' this (as @ [brk s]) \<subseteq> owned s this as \<union> {x. brk s \<le> x}"
        by (auto simp: owned_linv[OF r(1) r(3)] own r(5,6))
      moreover have "bucket_capacity M' = bucket_capacity M \<or> bucket_capacity M' = bucket_capacity M * 2"
        using r(4) by (simp split: if_splits)
      ultimately show ?thesis using r(1-3) by blast
    qed
  next
    case (M_erase pos)
    from run obtain r where er: "lhm_erase hasher this pos s = Some (r, s')"
      by (auto simp: M_erase)
    show ?thesis
    proof (cases r)
      case (Inl e)
      with er have "s' = s" by (simp add: lhm_erase_throws[OF M])
      with keep show ?thesis by simp
    next
      case (Inr x)
      with er have er': "lhm_erase hasher this pos s = Some (Inr (), s')" by simp
      from lhm_erase_success[OF inv er'] obtain c where c: "c \<in> set as"
        "pos = \<lparr>node = Some c, map_ptr = Some this\<rparr>"
        by blast
      from lhm_erase_linv[OF inv c(1) M] er' obtain M' where r:
        "linv hasher s' this (remove1 c as)" "modifies_only s this as s'"
        "objs s' this = Some M'" "bucket_capacity M' = bucket_capacity M"
        "order_head M' = order_head M" "order_tail M' = order_tail M"
        by (auto simp: c(2))
      have "owned s' this (remove1 c as) \<subseteq> owned s this as \<union> {x. brk s \<le> x}"
        using set_remove1_subset[of c as] by (auto simp: owned_linv[OF r(1) r(3)] own r(5,6))
      with r(1-4) show ?thesis by blast
    qed
  next
    case M_clear
    from lhm_clear_linv[OF inv M] run obtain M' where r:
      "linv hasher s' this []" "modifies_only s this as s'"
      "objs s' this = Some M'" "bucket_capacity M' = bucket_capacity M"
      "order_head M' = order_head M" "order_tail M' = order_tail M"
      by (auto simp: M_clear)
    have "owned s' this [] \<subseteq> owned s this as \<union> {x. brk s \<le> x}"
      by (auto simp: owned_linv[OF r(1) r(3)] own r(5,6))
    with r(1-4) show ?thesis by blast
  next
    case (M_index_assign k v)
    from lhm_index_cases[OF inv, of k dflt] show ?thesis
    proof (elim disjE bexE conjE exE)
      fix a assume a: "a \<in> set as" "lhm_index hasher dflt this k s = Some (Some a, s)"
      with run have "assign_second (Some a) v s = Some s'" by (simp add: M_index_assign)
      from assign_own_entry[OF inv M a(1) this] show ?thesis
        by (intro exI[of _ as] exI[of _ M]) auto
    next
      fix s1 assume fresh: "k \<notin> fst ` set (entries s as)"
        and ins: "lhm_insert hasher this (k, dflt) s
                   = Some ((\<lparr>node = Some (brk s), map_ptr = Some this\<rparr>, True), s1)"
        and ix: "lhm_index hasher dflt this k s = Some (Some (brk s), s1)"
      have "k \<notin> key_of (heap s) ` set as" using fresh by (simp add: linv_keys(1)[OF inv])
      from lhm_insert_new[OF inv M this, of dflt] ins obtain M1 where r:
        "linv hasher s1 this (as @ [brk s])" "modifies_only s this as s1"
        "objs s1 this = Some M1"
        "bucket_capacity M1 = (if 4 * (num_elements M + 1) > 3 * bucket_capacity M
                                then bucket_capacity M * 2 else bucket_capacity M)"
        "order_head M1 = order_head M" "order_tail M1 = order_tail M"
        by auto
      have sub: "owned s1 this (as @ [brk s]) \<subseteq> owned s this as \<union> {x. brk s \<le> x}"
        by (auto simp: owned_linv[OF r(1) r(3)] own r(5,6))
      from run ix have "assign_second (Some (brk s)) v s1 = Some s'" by (simp add: M_index_assign)
      from assign_own_entry[OF r(1) r(3) _ this]
      have w: "linv hasher s' this (as @ [brk s])" "modifies_only s1 this (as @ [brk s]) s'"
        "objs s' this = Some M1" "owned s' this (as @ [brk s]) = owned s1 this (as @ [brk s])"
        by simp_all
      have "modifies_only s this as s'" using r(2) w(2) sub by (rule modifies_only_trans)
      moreover have "bucket_capacity M1 = bucket_capacity M \<or> bucket_capacity M1 = bucket_capacity M * 2"
        using r(4) by (simp split: if_splits)
      ultimately show ?thesis using w(1,3,4) sub by (intro exI[of _ "as @ [brk s]"] exI[of _ M1]) simp
    qed
  next
    case (M_at_assign k v)
    from lhm_at_cases[OF inv, of k] show ?thesis
    proof (elim disjE bexE conjE)
      fix a assume a: "a \<in> set as" "lhm_at hasher this k s = Some (Inr (Some a))"
      with run have "assign_second (Some a) v s = Some s'" by (simp add: M_at_assign)
      from assign_own_entry[OF inv M a(1) this] show ?thesis
        by (intro exI[of _ as] exI[of _ M]) auto
    next
      assume "lhm_at hasher this k s = Some (Inl index_out_of_bound)"
      with run have "s' = s" by (simp add: M_at_assign)
      with keep show ?thesis by simp
    qed
  qed
qed


subsection \<open>Copying\<close>

lemma entries_eq_sub:
  assumes "entries s' bs = entries s bs" "set xs \<subseteq> set bs"
  shows "entries s' xs = entries s xs"
  using assms by (auto simp: entries_def)

lemma separate_sym: "separate hasher s this as other bs \<Longrightarrow> separate hasher s other bs this as"
  by (auto simp: separate_def)

lemma owned_below_brk:
  assumes "linv hasher s m as"
  shows "\<forall>x \<in> owned s m as. x < brk s"
  using assms by (auto simp: owned_def elim!: linvE)

lemma separate_step:
  assumes sep: "separate hasher s this as other bs"
    and inv': "linv hasher s' this as'"
    and mo: "modifies_only s this as s'"
    and sub: "owned s' this as' \<subseteq> owned s this as \<union> {x. brk s \<le> x}"
  shows "separate hasher s' this as' other bs" "entries s' bs = entries s bs"
    "objs s' other = objs s other" "\<forall>x \<in> owned s other bs. heap s' x = heap s x"
proof -
  note fr = separate_frame[OF sep mo]
  from sep have ne: "this \<noteq> other" and invo: "linv hasher s other bs"
    and disj: "owned s this as \<inter> owned s other bs = {}"
    by (simp_all add: separate_def)
  have "owned s' this as' \<inter> owned s' other bs = {}"
    using sub disj owned_below_brk[OF invo] unfolding fr(3) by fastforce
  then show "separate hasher s' this as' other bs"
    using ne inv' fr(1) by (simp add: separate_def)
  show "entries s' bs = entries s bs" by (rule fr(2))
  show "objs s' other = objs s other" using mo ne by (simp add: modifies_only_def)
  show "\<forall>x \<in> owned s other bs. heap s' x = heap s x"
    using mo disj owned_below_brk[OF invo] by (auto simp: modifies_only_def)
qed

lemma insert_new_separate:
  assumes sep: "separate hasher s this as other bs"
    and fresh: "k \<notin> fst ` set (entries s as)"
  shows "\<exists>s1. lhm_insert hasher this (k, v) s
            = Some ((\<lparr>node = Some (brk s), map_ptr = Some this\<rparr>, True), s1)
     \<and> separate hasher s1 this (as @ [brk s]) other bs
     \<and> entries s1 (as @ [brk s]) = entries s as @ [(k, v)]
     \<and> entries s1 bs = entries s bs
     \<and> modifies_only s this as s1
     \<and> owned s1 this (as @ [brk s]) \<subseteq> owned s this as \<union> {x. brk s \<le> x}
     \<and> objs s1 other = objs s other \<and> (\<forall>x \<in> owned s other bs. heap s1 x = heap s x)
     \<and> owned s1 other bs = owned s other bs"
proof -
  from sep have inv: "linv hasher s this as" by (simp add: separate_def)
  then obtain M where M: "objs s this = Some M" by (auto elim: linvE)
  from lhm_insert_new_entries[OF inv fresh, of v] obtain s1 where s1:
    "lhm_insert hasher this (k, v) s = Some ((\<lparr>node = Some (brk s), map_ptr = Some this\<rparr>, True), s1)"
    "linv hasher s1 this (as @ [brk s])"
    "entries s1 (as @ [brk s]) = entries s as @ [(k, v)]"
    "modifies_only s this as s1"
    by blast
  have "apply_mut hasher v this (M_insert k v) s = Some s1" by (simp add: s1(1))
  from apply_mut_linv[OF inv M this] obtain as' where
    a: "linv hasher s1 this as'" "owned s1 this as' \<subseteq> owned s this as \<union> {x. brk s \<le> x}"
    by blast
  have ow: "owned s1 this (as @ [brk s]) \<subseteq> owned s this as \<union> {x. brk s \<le> x}"
  proof -
    from s1(2) obtain M1 where M1: "objs s1 this = Some M1" by (auto elim: linvE)
    have "owned s1 this (as @ [brk s]) = set (as @ [brk s]) \<union> (owned s1 this as' - set as')
        \<union> set_option (order_head M1) \<union> set_option (order_tail M1)"
      by (auto simp: owned_def M1)
    moreover have "set_option (order_head M1) \<union> set_option (order_tail M1) \<subseteq> owned s1 this as'"
      by (auto simp: owned_def M1)
    moreover have "set as \<subseteq> owned s this as" by (auto simp: owned_def)
    ultimately show ?thesis using a(2) by auto
  qed
  from separate_step[OF sep s1(2) s1(4) ow] separate_frame(3)[OF sep s1(4)] s1 ow show ?thesis
    by (intro exI[of _ s1]) simp
qed

lemma copy_loop_spec:
  assumes sep: "separate hasher s this as other bs"
    and Mo: "objs s other = Some Mo" "order_tail Mo = Some t"
    and split: "bs = dn @ rest"
    and ent: "entries s as = entries s dn"
  shows "\<exists>s' as'. copy_loop hasher this other \<lparr>node = Some (hd (rest @ [t])), map_ptr = Some other\<rparr> s
            = Some (Inr (), s')
     \<and> separate hasher s' this as' other bs
     \<and> entries s' as' = entries s bs \<and> entries s' bs = entries s bs
     \<and> owned s' this as' \<subseteq> owned s this as \<union> {x. brk s \<le> x}
     \<and> brk s \<le> brk s'
     \<and> objs s' other = objs s other \<and> (\<forall>x \<in> owned s other bs. heap s' x = heap s x)"
  using assms
proof (induction rest arbitrary: s as dn)
  case Nil
  then have "entries s as = entries s bs" by simp
  moreover have "copy_loop hasher this other \<lparr>node = Some (hd ([] @ [t])), map_ptr = Some other\<rparr> s
            = Some (Inr (), s)"
    by (subst copy_loop.simps) (simp add: lhm_end_def Nil.prems(2,3))
  ultimately show ?case
    using Nil.prems(1) by (intro exI[of _ s] exI[of _ as]) simp
next
  case (Cons a rest)
  note sep = Cons.prems(1) and Mo = Cons.prems(2,3) and split = Cons.prems(4) and ent = Cons.prems(5)
  from sep have invo: "linv hasher s other bs" and inv: "linv hasher s this as"
    by (simp_all add: separate_def)
  from invo Mo obtain h where h: "order_head Mo = Some h"
    and dist: "distinct (h # bs @ [t])"
    and fp: "fpath (onx (heap s)) (h # bs @ [t])"
    and ento: "\<forall>x \<in> set bs. dat (heap s) x \<noteq> None"
    and keys: "distinct (map (key_of (heap s)) bs)"
    by (auto elim!: linvE)
  have a_in: "a \<in> set bs" by (simp add: split)
  have a_ne: "a \<noteq> t" "a \<noteq> h" using dist a_in by auto
  from ento a_in obtain k v where kv: "dat (heap s) a = Some (k, v)" by fastforce
  have ka: "key_of (heap s) a = k" by (simp add: key_of_def kv)
  have fresh: "k \<notin> fst ` set (entries s as)"
  proof -
    have "fst ` set (entries s dn) = key_of (heap s) ` set dn"
      using ento by (intro entries_key_image) (simp add: split)
    moreover have "k \<notin> key_of (heap s) ` set dn"
      using keys ka by (auto simp: split)
    ultimately show ?thesis by (simp add: ent)
  qed
  from insert_new_separate[OF sep fresh, of v] obtain s1 where s1:
    "lhm_insert hasher this (k, v) s = Some ((\<lparr>node = Some (brk s), map_ptr = Some this\<rparr>, True), s1)"
    "separate hasher s1 this (as @ [brk s]) other bs"
    "entries s1 (as @ [brk s]) = entries s as @ [(k, v)]"
    "entries s1 bs = entries s bs"
    "modifies_only s this as s1"
    "owned s1 this (as @ [brk s]) \<subseteq> owned s this as \<union> {x. brk s \<le> x}"
    "objs s1 other = objs s other" "\<forall>x \<in> owned s other bs. heap s1 x = heap s x"
    "owned s1 other bs = owned s other bs"
    by blast
  from s1(2) have invo1: "linv hasher s1 other bs" by (simp add: separate_def)
  have Mo1: "objs s1 other = Some Mo"
    using s1(5) sep Mo(1) by (auto simp: modifies_only_def separate_def)
  from invo1 Mo1 h Mo(2) have fp1: "fpath (onx (heap s1)) (h # bs @ [t])"
    by (auto elim!: linvE)
  have "h # bs @ [t] = (h # dn) @ a # (rest @ [t])" by (simp add: split)
  with fp1 have "onx (heap s1) a = Some (Some (hd (rest @ [t])))"
    using fpath_mid_next[of "onx (heap s1)" "h # dn" a "rest @ [t]"] by simp
  then obtain n1 where n1: "heap s1 a = Some n1" "order_next n1 = Some (hd (rest @ [t]))"
    by (auto dest: onx_SomeD)
  have ent1: "entries s1 (as @ [brk s]) = entries s1 (dn @ [a])"
  proof -
    have "entries s1 (dn @ [a]) = entries s (dn @ [a])"
      using s1(4) by (rule entries_eq_sub) (auto simp: split)
    also have "\<dots> = entries s dn @ [(k, v)]" by (simp add: entries_def kv)
    finally show ?thesis by (simp add: s1(3) ent)
  qed
  have "\<exists>s' as'. copy_loop hasher this other \<lparr>node = Some (hd (rest @ [t])), map_ptr = Some other\<rparr> s1
            = Some (Inr (), s')
     \<and> separate hasher s' this as' other bs
     \<and> entries s' as' = entries s1 bs \<and> entries s' bs = entries s1 bs
     \<and> owned s' this as' \<subseteq> owned s1 this (as @ [brk s]) \<union> {x. brk s1 \<le> x}
     \<and> brk s1 \<le> brk s'
     \<and> objs s' other = objs s1 other \<and> (\<forall>x \<in> owned s1 other bs. heap s' x = heap s1 x)"
    by (rule Cons.IH[OF s1(2) Mo1 Mo(2) _ ent1]) (simp add: split)
  then obtain s' as' where r:
    "copy_loop hasher this other \<lparr>node = Some (hd (rest @ [t])), map_ptr = Some other\<rparr> s1 = Some (Inr (), s')"
    "separate hasher s' this as' other bs"
    "entries s' as' = entries s1 bs" "entries s' bs = entries s1 bs"
    "owned s' this as' \<subseteq> owned s1 this (as @ [brk s]) \<union> {x. brk s1 \<le> x}"
    "brk s1 \<le> brk s'"
    "objs s' other = objs s1 other" "\<forall>x \<in> owned s1 other bs. heap s' x = heap s1 x"
    by blast
  have b1: "brk s \<le> brk s1" using s1(5) by (simp add: modifies_only_def)
  have step: "copy_loop hasher this other \<lparr>node = Some (hd ((a # rest) @ [t])), map_ptr = Some other\<rparr> s
      = copy_loop hasher this other \<lparr>node = Some (hd (rest @ [t])), map_ptr = Some other\<rparr> s1"
    using a_ne
    by (subst copy_loop.simps)
       (simp add: lhm_end_def Mo h it_deref_def load_obj_def ref_data_dat kv s1(1)
          it_pre_inc_def Mo1 load_def n1)
  have "owned s' this as' \<subseteq> owned s this as \<union> {x. brk s \<le> x}"
    using r(5) s1(6) b1 by fastforce
  moreover have "\<forall>x \<in> owned s other bs. heap s' x = heap s x"
    using r(8) s1(8) unfolding s1(9) by simp
  ultimately show ?case
    unfolding step using r(1-4) s1(4) b1 r(6,7) s1(7)
    by (intro exI[of _ s'] exI[of _ as']) simp
qed

lemma copy_from_spec:
  assumes sep: "separate hasher s this [] other bs"
  shows "\<exists>s' as'. copy_from hasher this other s = Some (Inr (), s')
     \<and> separate hasher s' this as' other bs
     \<and> entries s' as' = entries s bs \<and> entries s' bs = entries s bs
     \<and> owned s' this as' \<subseteq> owned s this [] \<union> {x. brk s \<le> x}
     \<and> objs s' other = objs s other \<and> (\<forall>x \<in> owned s other bs. heap s' x = heap s x)"
proof -
  from sep have invo: "linv hasher s other bs" by (simp add: separate_def)
  then obtain Mo t where Mo: "objs s other = Some Mo" "order_tail Mo = Some t"
    by (auto elim: linvE)
  have b: "lhm_begin other s = Some \<lparr>node = Some (hd (bs @ [t])), map_ptr = Some other\<rparr>"
    using lhm_begin_linv[OF invo Mo(1)] by (simp add: Mo(2))
  have e: "entries s [] = entries s []" by simp
  from copy_loop_spec[OF sep Mo _ e, of bs] show ?thesis
    unfolding copy_from_def b by simp blast
qed

lemma lhm_copy_ctor_spec:
  assumes invo: "linv hasher s other bs" and ne: "this \<noteq> other"
  shows "\<exists>s' as. lhm_copy_ctor hasher this other s = Some (Inr (), s')
     \<and> separate hasher s' this as other bs
     \<and> entries s' as = entries s bs \<and> entries s' bs = entries s bs
     \<and> owned s' this as \<subseteq> {x. brk s \<le> x}
     \<and> objs s' other = objs s other \<and> (\<forall>x \<in> owned s other bs. heap s' x = heap s x)"
proof -
  from invo obtain OM where OM: "objs s other = Some OM"
    and pow: "\<exists>j. bucket_capacity OM = INIT_CAPACITY * 2 ^ j"
    by (auto elim: linvE)
  define M0 where "M0 = \<lparr>buckets = replicate (bucket_capacity OM) None, order_head = None,
     order_tail = None, bucket_capacity = bucket_capacity OM, num_elements = 0\<rparr>"
  define s1 where "s1 = set_obj this M0 s"
  have s1: "objs s1 this = Some M0" "heap s1 = heap s" "brk s1 = brk s"
    "objs s1 other = objs s other"
    using ne by (simp_all add: s1_def set_obj_def)
  have "\<exists>s' M'. init_empty this s1 = Some s' \<and> linv hasher s' this []
     \<and> (\<forall>x. x < brk s1 \<longrightarrow> heap s' x = heap s1 x)
     \<and> (\<forall>m. m \<noteq> this \<longrightarrow> objs s' m = objs s1 m)
     \<and> brk s' = Suc (Suc (brk s1))
     \<and> objs s' this = Some M' \<and> bucket_capacity M' = bucket_capacity M0
     \<and> order_head M' = Some (brk s1) \<and> order_tail M' = Some (Suc (brk s1))"
    using pow by (intro init_empty_linv[OF s1(1)]) (simp_all add: M0_def)
  then obtain s2 M2 where s2: "init_empty this s1 = Some s2" "linv hasher s2 this []"
    "\<forall>x. x < brk s \<longrightarrow> heap s2 x = heap s x"
    "\<forall>m. m \<noteq> this \<longrightarrow> objs s2 m = objs s1 m" "brk s2 = Suc (Suc (brk s))"
    "objs s2 this = Some M2" "order_head M2 = Some (brk s)" "order_tail M2 = Some (Suc (brk s))"
    unfolding s1(2,3) by blast
  have o2: "objs s2 other = objs s other" using s2(4) ne s1(4) by simp
  note below = owned_below_brk[OF invo]
  have fr: "linv hasher s2 other bs" "entries s2 bs = entries s bs"
    "owned s2 other bs = owned s other bs"
    using below s2(3) by (auto intro!: linv_frame[OF invo o2] simp: s2(5))
  have own2: "owned s2 this [] = {brk s, Suc (brk s)}"
    using owned_linv[OF s2(2,6)] by (auto simp: s2(7,8))
  have sep2: "separate hasher s2 this [] other bs"
    using ne s2(2) fr(1) below unfolding separate_def own2 fr(3) by fastforce
  from copy_from_spec[OF sep2] obtain s' as where r:
    "copy_from hasher this other s2 = Some (Inr (), s')"
    "separate hasher s' this as other bs"
    "entries s' as = entries s2 bs" "entries s' bs = entries s2 bs"
    "owned s' this as \<subseteq> owned s2 this [] \<union> {x. brk s2 \<le> x}"
    "objs s' other = objs s2 other" "\<forall>x \<in> owned s2 other bs. heap s' x = heap s2 x"
    by blast
  have run: "lhm_copy_ctor hasher this other s = Some (Inr (), s')"
    using s2(1) r(1) by (simp add: lhm_copy_ctor_def OM Let_def s1_def M0_def)
  have own: "owned s' this as \<subseteq> {x. brk s \<le> x}"
    using r(5) unfolding own2 s2(5) by auto
  have hp: "\<forall>x \<in> owned s other bs. heap s' x = heap s x"
    using r(7) s2(3) below unfolding fr(3) by simp
  show ?thesis
    using run r(2) own hp r(3,4,6) fr(2) o2
    by (intro exI[of _ s'] exI[of _ as]) simp
qed

lemma lhm_assign_spec:
  assumes sep: "separate hasher s this as0 other bs"
  shows "\<exists>s' as. lhm_assign hasher this other s = Some (Inr (), s')
     \<and> separate hasher s' this as other bs
     \<and> entries s' as = entries s bs \<and> entries s' bs = entries s bs
     \<and> owned s' this as \<subseteq> {x. brk s \<le> x}
     \<and> objs s' other = objs s other \<and> (\<forall>x \<in> owned s other bs. heap s' x = heap s x)"
proof -
  from sep have ne: "this \<noteq> other" and inv: "linv hasher s this as0"
    and invo: "linv hasher s other bs"
    and disj: "owned s this as0 \<inter> owned s other bs = {}"
    by (simp_all add: separate_def)
  from invo obtain OM where OM: "objs s other = Some OM"
    and pow: "\<exists>j. bucket_capacity OM = INIT_CAPACITY * 2 ^ j"
    by (auto elim: linvE)
  from inv obtain M h t where M: "objs s this = Some M" "order_head M = Some h"
    "order_tail M = Some t"
    by (auto elim: linvE)
  have ht: "h \<in> owned s this as0" "t \<in> owned s this as0"
    by (simp_all add: owned_def M)
  from lhm_clear_linv[OF inv M(1)] obtain s1 M1 where s1:
    "lhm_clear this s = Some s1" "linv hasher s1 this []" "modifies_only s this as0 s1"
    "brk s1 = brk s" "objs s1 this = Some M1" "order_head M1 = Some h" "order_tail M1 = Some t"
    unfolding M(2,3) by blast
  from s1(2,5,6,7) have h1: "heap s1 h \<noteq> None" "heap s1 t \<noteq> None" "h \<noteq> t"
    by (auto elim!: linvE)
  from delete_node_spec[OF h1(1)] obtain s2 where s2:
    "delete_node (Some h) s1 = Some s2" "objs s2 = objs s1" "brk s2 = brk s1"
    "\<forall>x. x \<noteq> h \<longrightarrow> heap s2 x = heap s1 x"
    by metis
  have "heap s2 t \<noteq> None" using s2(4) h1(2,3) by simp
  from delete_node_spec[OF this] obtain s3 where s3:
    "delete_node (Some t) s2 = Some s3" "objs s3 = objs s2" "brk s3 = brk s2"
    "\<forall>x. x \<noteq> t \<longrightarrow> heap s3 x = heap s2 x"
    by metis
  have o1: "objs s1 other = Some OM"
    using s1(3) ne OM by (simp add: modifies_only_def)
  define M3 where "M3 = M1\<lparr>buckets := replicate (bucket_capacity OM) None,
     bucket_capacity := bucket_capacity OM, num_elements := 0\<rparr>"
  define s4 where "s4 = set_obj this M3 s3"
  have s4: "objs s4 this = Some M3" "heap s4 = heap s3" "brk s4 = brk s"
    "objs s4 other = Some OM"
    using ne o1 by (simp_all add: s4_def set_obj_def s3(2,3) s2(2,3) s1(4))
  have "\<exists>s' M'. init_empty this s4 = Some s' \<and> linv hasher s' this []
     \<and> (\<forall>x. x < brk s4 \<longrightarrow> heap s' x = heap s4 x)
     \<and> (\<forall>m. m \<noteq> this \<longrightarrow> objs s' m = objs s4 m)
     \<and> brk s' = Suc (Suc (brk s4))
     \<and> objs s' this = Some M' \<and> bucket_capacity M' = bucket_capacity M3
     \<and> order_head M' = Some (brk s4) \<and> order_tail M' = Some (Suc (brk s4))"
    using pow by (intro init_empty_linv[OF s4(1)]) (simp_all add: M3_def)
  then obtain s5 M5 where s5: "init_empty this s4 = Some s5" "linv hasher s5 this []"
    "\<forall>x. x < brk s \<longrightarrow> heap s5 x = heap s3 x"
    "\<forall>m. m \<noteq> this \<longrightarrow> objs s5 m = objs s4 m" "brk s5 = Suc (Suc (brk s))"
    "objs s5 this = Some M5" "order_head M5 = Some (brk s)" "order_tail M5 = Some (Suc (brk s))"
    unfolding s4(2,3) by blast
  have o5: "objs s5 other = objs s other" using s5(4) ne s4(4) OM by simp
  note below = owned_below_brk[OF invo]
  have h5: "\<forall>x \<in> owned s other bs. heap s5 x = heap s x"
  proof
    fix x assume x: "x \<in> owned s other bs"
    then have xb: "x < brk s" and xn: "x \<notin> owned s this as0" using below disj by auto
    then have "x \<noteq> h" "x \<noteq> t" using ht by auto
    then have "heap s3 x = heap s1 x" using s3(4) s2(4) by simp
    moreover have "heap s1 x = heap s x" using s1(3) xb xn by (simp add: modifies_only_def)
    ultimately show "heap s5 x = heap s x" using s5(3) xb by simp
  qed
  have fr: "linv hasher s5 other bs" "entries s5 bs = entries s bs"
    "owned s5 other bs = owned s other bs"
    using h5 by (auto intro!: linv_frame[OF invo o5] simp: s5(5))
  have own5: "owned s5 this [] = {brk s, Suc (brk s)}"
    using owned_linv[OF s5(2,6)] by (auto simp: s5(7,8))
  have sep5: "separate hasher s5 this [] other bs"
    using ne s5(2) fr(1) below unfolding separate_def own5 fr(3) by fastforce
  from copy_from_spec[OF sep5] obtain s' as where r:
    "copy_from hasher this other s5 = Some (Inr (), s')"
    "separate hasher s' this as other bs"
    "entries s' as = entries s5 bs" "entries s' bs = entries s5 bs"
    "owned s' this as \<subseteq> owned s5 this [] \<union> {x. brk s5 \<le> x}"
    "objs s' other = objs s5 other" "\<forall>x \<in> owned s5 other bs. heap s' x = heap s5 x"
    by blast
  have o3: "objs s3 other = Some OM" "objs s3 this = Some M1"
    by (simp_all add: s3(2) s2(2) o1 s1(5))
  have run: "lhm_assign hasher this other s = Some (Inr (), s')"
    using ne s5(1) r(1)
    by (simp add: lhm_assign_def s1(1,5,6,7) s2(1) s3(1) o3 Let_def s4_def M3_def)
  have own: "owned s' this as \<subseteq> {x. brk s \<le> x}"
    using r(5) unfolding own5 s5(5) by auto
  have hp: "\<forall>x \<in> owned s other bs. heap s' x = heap s x"
    using r(7) h5 unfolding fr(3) by simp
  show ?thesis
    using run r(2) own hp r(3,4,6) fr(2) o5
    by (intro exI[of _ s'] exI[of _ as]) simp
qed

lemma mutation_separate:
  assumes sep: "separate hasher s this as other bs"
    and run: "apply_mut hasher dflt this u s = Some s'"
  shows "\<exists>as'. separate hasher s' this as' other bs \<and> entries s' bs = entries s bs
     \<and> objs s' other = objs s other \<and> (\<forall>x \<in> owned s other bs. heap s' x = heap s x)"
proof -
  from sep have inv: "linv hasher s this as" by (simp add: separate_def)
  then obtain M where M: "objs s this = Some M" by (auto elim: linvE)
  from apply_mut_linv[OF inv M run] obtain as' where a:
    "linv hasher s' this as'" "modifies_only s this as s'"
    "owned s' this as' \<subseteq> owned s this as \<union> {x. brk s \<le> x}"
    by blast
  from separate_step[OF sep a] show ?thesis by blast
qed

subsection \<open>Iterator misuse\<close>

lemma it_pre_inc_end:
  assumes "lhm_end m s = Some e"
  shows "it_pre_inc e s = Some (Inl invalid_iterator)"
proof -
  from assms obtain M where M: "objs s m = Some M" and e: "e = \<lparr>node = order_tail M, map_ptr = Some m\<rparr>"
    by (auto simp: lhm_end_def split: option.splits bind_splits)
  show ?thesis
    by (simp add: it_pre_inc_def e load_obj_def M)
qed

lemma it_pre_dec_begin:
  assumes "lhm_begin m s = Some b"
  shows "it_pre_dec b s = Some (Inl invalid_iterator)"
proof -
  from assms obtain M h where M: "objs s m = Some M" and h: "load s (order_head M) = Some h"
    and b: "b = \<lparr>node = order_next h, map_ptr = Some m\<rparr>"
    by (auto simp: lhm_begin_def split: bind_splits)
  show ?thesis
    by (simp add: it_pre_dec_def b load_obj_def M h)
qed

lemma it_deref_sentinel:
  assumes "objs s m = Some M" and "p = order_head M \<or> p = order_tail M \<or> p = None"
  shows "it_deref \<lparr>node = p, map_ptr = Some m\<rparr> s = Some (Inl invalid_iterator)"
  using assms by (auto simp: it_deref_def load_obj_def)

lemma it_deref_unchecked:
  assumes "objs s m = Some M" "Some a \<noteq> order_head M" "Some a \<noteq> order_tail M"
  shows "it_deref \<lparr>node = Some a, map_ptr = Some m\<rparr> s = Some (Inr (Some a))"
  using assms by (simp add: it_deref_def load_obj_def)

lemma it_pre_inc_no_throw:
  assumes "objs s m = Some M" "Some a \<noteq> order_tail M"
  shows "it_pre_inc \<lparr>node = Some a, map_ptr = Some m\<rparr> s \<noteq> Some (Inl r)"
  using assms by (auto simp: it_pre_inc_def load_obj_def split: bind_splits)

lemma it_pre_dec_no_throw:
  assumes "lhm_begin m s = Some b" "Some a \<noteq> node b"
  shows "it_pre_dec \<lparr>node = Some a, map_ptr = Some m\<rparr> s \<noteq> Some (Inl r)"
proof -
  from assms(1) obtain M h where M: "objs s m = Some M" and h: "load s (order_head M) = Some h"
    and b: "b = \<lparr>node = order_next h, map_ptr = Some m\<rparr>"
    by (auto simp: lhm_begin_def split: bind_splits)
  show ?thesis
    using assms(2) by (auto simp: it_pre_dec_def load_obj_def M h b split: bind_splits)
qed

lemma it_deref_erased:
  assumes inv: "linv hasher s m as" and c: "c \<in> set as"
    and er: "lhm_erase hasher m \<lparr>node = Some c, map_ptr = Some m\<rparr> s = Some (Inr (), s')"
  shows "it_deref \<lparr>node = Some c, map_ptr = Some m\<rparr> s' = Some (Inr (Some c))"
    and "ref_data s' (Some c) = None"
    and "it_pre_inc \<lparr>node = Some c, map_ptr = Some m\<rparr> s' = None"
proof -
  from inv obtain M where M: "objs s m = Some M" by (auto elim: linvE)
  from lhm_erase_linv[OF inv c M] er obtain M' where s':
    "heap s' c = None" "objs s' m = Some M'"
    "order_head M' = order_head M" "order_tail M' = order_tail M"
    by auto
  have ne: "order_tail M \<noteq> Some c" "order_head M \<noteq> Some c"
    using linv_tail_notin[OF inv M c] by simp_all
  show "it_deref \<lparr>node = Some c, map_ptr = Some m\<rparr> s' = Some (Inr (Some c))"
    using ne by (intro it_deref_unchecked[OF s'(2)]) (auto simp: s'(3,4))
  show "ref_data s' (Some c) = None"
    by (simp add: ref_data_def load_def s'(1))
  show "it_pre_inc \<lparr>node = Some c, map_ptr = Some m\<rparr> s' = None"
    using ne by (auto simp: it_pre_inc_def load_obj_def s'(2,4) load_def s'(1))
qed

text \<open>
  Claim C7, as the code has it.  Incrementing (prefix or postfix) the iterator \<^verbatim>\<open>end()\<close>,
  decrementing the iterator \<^verbatim>\<open>begin()\<close>, and applying \<^verbatim>\<open>operator*\<close> to an iterator on the
  head sentinel, on the tail sentinel, or with a null node or a null container pointer,
  all yield \<^verbatim>\<open>invalid_iterator\<close>.  An iterator on any other node is not checked: whether
  or not the node is a live entry of the container the iterator names, \<^verbatim>\<open>operator*\<close>
  returns the address of the node, and increment and decrement raise nothing.  In
  particular, after \<^verbatim>\<open>erase\<close> the iterator of the erased entry still dereferences, to a
  dangling reference, and incrementing it has no defined result.
\<close>

theorem iterator_misuse:
  assumes "objs s m = Some M"
    and "lhm_end m s = Some e"
    and "lhm_begin m s = Some b"
  shows "it_pre_inc e s = Some (Inl invalid_iterator)
       \<and> it_post_inc e s = Some (Inl invalid_iterator)
       \<and> it_pre_dec b s = Some (Inl invalid_iterator)
       \<and> it_post_dec b s = Some (Inl invalid_iterator)
       \<and> it_deref \<lparr>node = order_head M, map_ptr = Some m\<rparr> s = Some (Inl invalid_iterator)
       \<and> it_deref \<lparr>node = order_tail M, map_ptr = Some m\<rparr> s = Some (Inl invalid_iterator)
       \<and> it_deref \<lparr>node = None, map_ptr = Some m\<rparr> s = Some (Inl invalid_iterator)
       \<and> it_deref \<lparr>node = p, map_ptr = None\<rparr> s = Some (Inl invalid_iterator)
       \<and> (\<forall>a. Some a \<noteq> order_head M \<and> Some a \<noteq> order_tail M \<longrightarrow>
             it_deref \<lparr>node = Some a, map_ptr = Some m\<rparr> s = Some (Inr (Some a)))
       \<and> (\<forall>a r. Some a \<noteq> order_tail M \<longrightarrow>
             it_pre_inc \<lparr>node = Some a, map_ptr = Some m\<rparr> s \<noteq> Some (Inl r))
       \<and> (\<forall>a r. Some a \<noteq> node b \<longrightarrow>
             it_pre_dec \<lparr>node = Some a, map_ptr = Some m\<rparr> s \<noteq> Some (Inl r))
       \<and> (\<forall>hasher as c s'. linv hasher s m as \<and> c \<in> set as
             \<and> lhm_erase hasher m \<lparr>node = Some c, map_ptr = Some m\<rparr> s = Some (Inr (), s') \<longrightarrow>
             it_deref \<lparr>node = Some c, map_ptr = Some m\<rparr> s' = Some (Inr (Some c))
             \<and> ref_data s' (Some c) = None
             \<and> it_pre_inc \<lparr>node = Some c, map_ptr = Some m\<rparr> s' = None)"
proof (intro conjI allI impI)
  show "it_pre_inc e s = Some (Inl invalid_iterator)" using assms(2) by (rule it_pre_inc_end)
  then show "it_post_inc e s = Some (Inl invalid_iterator)" by (simp add: it_post_inc_def)
  show "it_pre_dec b s = Some (Inl invalid_iterator)" using assms(3) by (rule it_pre_dec_begin)
  then show "it_post_dec b s = Some (Inl invalid_iterator)" by (simp add: it_post_dec_def)
  show "it_deref \<lparr>node = order_head M, map_ptr = Some m\<rparr> s = Some (Inl invalid_iterator)"
    "it_deref \<lparr>node = order_tail M, map_ptr = Some m\<rparr> s = Some (Inl invalid_iterator)"
    "it_deref \<lparr>node = None, map_ptr = Some m\<rparr> s = Some (Inl invalid_iterator)"
    using it_deref_sentinel[OF assms(1)] by simp_all
  show "it_deref \<lparr>node = p, map_ptr = None\<rparr> s = Some (Inl invalid_iterator)"
    by (simp add: it_deref_def)
next
  fix a assume "Some a \<noteq> order_head M \<and> Some a \<noteq> order_tail M"
  then show "it_deref \<lparr>node = Some a, map_ptr = Some m\<rparr> s = Some (Inr (Some a))"
    using it_deref_unchecked[OF assms(1)] by simp
next
  fix a r assume "Some a \<noteq> order_tail M"
  then show "it_pre_inc \<lparr>node = Some a, map_ptr = Some m\<rparr> s \<noteq> Some (Inl r)"
    by (rule it_pre_inc_no_throw[OF assms(1)])
next
  fix a r assume "Some a \<noteq> node b"
  then show "it_pre_dec \<lparr>node = Some a, map_ptr = Some m\<rparr> s \<noteq> Some (Inl r)"
    by (rule it_pre_dec_no_throw[OF assms(3)])
next
  fix hasher :: "'a \<Rightarrow> nat" and as c s'
  assume h: "linv hasher s m as \<and> c \<in> set as
             \<and> lhm_erase hasher m \<lparr>node = Some c, map_ptr = Some m\<rparr> s = Some (Inr (), s')"
  then have 1: "linv hasher s m as" and 2: "c \<in> set as"
    and 3: "lhm_erase hasher m \<lparr>node = Some c, map_ptr = Some m\<rparr> s = Some (Inr (), s')"
    by simp_all
  show "it_deref \<lparr>node = Some c, map_ptr = Some m\<rparr> s' = Some (Inr (Some c))"
    "ref_data s' (Some c) = None"
    "it_pre_inc \<lparr>node = Some c, map_ptr = Some m\<rparr> s' = None"
    using it_deref_erased[OF 1 2 3] by simp_all
qed

theorem iterator_misuse_witness:
  "objs one_store 100 = Some \<lparr>buckets = (replicate 16 None)[7 := Some 2], order_head = Some 0,
                      order_tail = Some 1, bucket_capacity = 16, num_elements = 1\<rparr>
   \<and> lhm_end 100 one_store = Some \<lparr>node = Some 1, map_ptr = Some 100\<rparr>
   \<and> lhm_begin 100 one_store = Some \<lparr>node = Some 2, map_ptr = Some 100\<rparr>
   \<and> it_pre_inc \<lparr>node = Some 1, map_ptr = Some 100\<rparr> one_store = Some (Inl invalid_iterator)
   \<and> it_pre_dec \<lparr>node = Some 2, map_ptr = Some 100\<rparr> one_store = Some (Inl invalid_iterator)
   \<and> it_deref \<lparr>node = Some 0, map_ptr = Some 100\<rparr> one_store = Some (Inl invalid_iterator)
   \<and> it_deref \<lparr>node = Some 1, map_ptr = Some 100\<rparr> one_store = Some (Inl invalid_iterator)
   \<and> it_deref \<lparr>node = Some 2, map_ptr = Some 100\<rparr> one_store = Some (Inr (Some 2))
   \<and> it_deref \<lparr>node = Some 5, map_ptr = Some 100\<rparr> one_store = Some (Inr (Some 5))
   \<and> linv id one_store 100 [2]
   \<and> (\<exists>s'. lhm_erase id 100 \<lparr>node = Some 2, map_ptr = Some 100\<rparr> one_store = Some (Inr (), s')
         \<and> it_deref \<lparr>node = Some 2, map_ptr = Some 100\<rparr> s' = Some (Inr (Some 2))
         \<and> ref_data s' (Some 2) = None)"
proof -
  have 1: "objs one_store 100 = Some \<lparr>buckets = (replicate 16 None)[7 := Some 2], order_head = Some 0,
                      order_tail = Some 1, bucket_capacity = 16, num_elements = 1\<rparr>"
    by (simp add: one_store_def)
  have 2: "lhm_end 100 one_store = Some \<lparr>node = Some 1, map_ptr = Some 100\<rparr>"
    by (simp add: lhm_end_def one_store_def)
  have 3: "lhm_begin 100 one_store = Some \<lparr>node = Some 2, map_ptr = Some 100\<rparr>"
    by (simp add: lhm_begin_def one_store_def load_def LinkNode_def)
  note T = iterator_misuse[OF 1 2 3]
  from lhm_erase_entries[OF linv_one_store, of 2] obtain s' where
    er: "lhm_erase id 100 \<lparr>node = Some 2, map_ptr = Some 100\<rparr> one_store = Some (Inr (), s')"
    by auto
  from T have "\<forall>hasher as c s'. linv hasher one_store 100 as \<and> c \<in> set as
             \<and> lhm_erase hasher 100 \<lparr>node = Some c, map_ptr = Some 100\<rparr> one_store = Some (Inr (), s') \<longrightarrow>
             it_deref \<lparr>node = Some c, map_ptr = Some 100\<rparr> s' = Some (Inr (Some c))
             \<and> ref_data s' (Some c) = None
             \<and> it_pre_inc \<lparr>node = Some c, map_ptr = Some 100\<rparr> s' = None"
    by simp
  from this[rule_format, of id "[2]" 2 s'] linv_one_store er
  have 4: "\<exists>s'. lhm_erase id 100 \<lparr>node = Some 2, map_ptr = Some 100\<rparr> one_store = Some (Inr (), s')
         \<and> it_deref \<lparr>node = Some 2, map_ptr = Some 100\<rparr> s' = Some (Inr (Some 2))
         \<and> ref_data s' (Some 2) = None"
    by (intro exI[of _ s']) simp
  from T have 5: "it_pre_inc \<lparr>node = Some 1, map_ptr = Some 100\<rparr> one_store = Some (Inl invalid_iterator)"
    "it_pre_dec \<lparr>node = Some 2, map_ptr = Some 100\<rparr> one_store = Some (Inl invalid_iterator)"
    "it_deref \<lparr>node = Some 0, map_ptr = Some 100\<rparr> one_store = Some (Inl invalid_iterator)"
    "it_deref \<lparr>node = Some 1, map_ptr = Some 100\<rparr> one_store = Some (Inl invalid_iterator)"
    by simp_all
  from T have "\<forall>a. Some a \<noteq> Some (0::nat) \<and> Some a \<noteq> Some 1 \<longrightarrow>
             it_deref \<lparr>node = Some a, map_ptr = Some 100\<rparr> one_store = Some (Inr (Some a))"
    by simp
  then have 6: "it_deref \<lparr>node = Some 2, map_ptr = Some 100\<rparr> one_store = Some (Inr (Some 2))"
    "it_deref \<lparr>node = Some 5, map_ptr = Some 100\<rparr> one_store = Some (Inr (Some 5))"
    by simp_all
  from 1 2 3 4 5 6 linv_one_store show ?thesis by (intro conjI)
qed

text \<open>
  The claim as stated fails: \<^verbatim>\<open>operator*\<close> on the iterator of an entry that has been
  erased returns the dangling address and raises nothing; and \<^verbatim>\<open>operator->\<close> on \<^verbatim>\<open>end()\<close>
  of an empty map, which lacks the check that \<^verbatim>\<open>operator*\<close> makes, returns the address of
  the tail sentinel.
\<close>

theorem iterator_misuse_counterexample:
  "(do { s \<leftarrow> lhm_ctor 100 empty_store;
         (r, s) \<leftarrow> lhm_insert id 100 (7, 70) s;
         (_, s) \<leftarrow> lhm_erase id 100 (fst r) s;
         it_deref (fst r) s }) = Some (Inr (Some 2))
   \<and> (do { s \<leftarrow> lhm_ctor 100 empty_store;
           e \<leftarrow> lhm_end 100 s;
           it_arrow e s }) = Some (Inr (Some 1))"
  by code_simp

subsection \<open>Re-inserting a present key\<close>

text \<open>
  Claim C1.  In a well-formed map, \<^verbatim>\<open>insert\<close> with a key that is present returns the iterator
  to the node of the existing entry and the flag \<open>False\<close>, and the store after the call is
  the store before it: the stored value, the order list, the size and every bucket chain
  are untouched, whatever value was passed.
\<close>

theorem insert_existing_key:
  assumes "linv hasher s this as" and "(k, v0) \<in> set (entries s as)"
  shows "\<exists>a \<in> set as. lhm_insert hasher this (k, v) s
            = Some ((\<lparr>node = Some a, map_ptr = Some this\<rparr>, False), s)
          \<and> ref_data s (Some a) = Some (k, v0)"
proof -
  from assms(1) have ent: "\<forall>a \<in> set as. dat (heap s) a \<noteq> None"
    by (auto elim: linvE)
  from entries_memD[OF assms(2) ent] obtain a where a: "a \<in> set as" "dat (heap s) a = Some (k, v0)"
    by blast
  then have "key_of (heap s) a = k" by (simp add: key_of_def)
  with lhm_insert_existing[OF assms(1) a(1), of v] a show ?thesis
    by (auto simp: ref_data_dat)
qed

theorem insert_existing_key_witness:
  "linv id one_store 100 [2] \<and> (7, 70) \<in> set (entries one_store [2])
   \<and> lhm_insert id 100 (7, 99) one_store
        = Some ((\<lparr>node = Some 2, map_ptr = Some 100\<rparr>, False), one_store)
   \<and> ref_data one_store (Some 2) = Some (7, 70)"
proof -
  have m: "(7, 70) \<in> set (entries one_store [2])" by (simp add: entries_one_store)
  from insert_existing_key[OF linv_one_store m, of 99] linv_one_store m show ?thesis
    by simp
qed

subsection \<open>at and the const operator[]\<close>

text \<open>
  Claim C5.  In a well-formed map, \<^verbatim>\<open>at(key)\<close> yields \<^verbatim>\<open>index_out_of_bound\<close> exactly when
  the key is not among the entries; when the key is present with value \<open>v\<close> it returns a
  reference to the node of that entry, through which \<open>v\<close> is read; the \<^verbatim>\<open>const\<close>
  \<^verbatim>\<open>operator[]\<close> is the same function.  Neither writes to the store: they only read it.
\<close>

theorem at_spec:
  assumes "linv hasher s this as"
  shows "(lhm_at hasher this k s = Some (Inl index_out_of_bound) \<longleftrightarrow> k \<notin> fst ` set (entries s as))
       \<and> (\<forall>v. (k, v) \<in> set (entries s as) \<longrightarrow>
             (\<exists>a \<in> set as. lhm_at hasher this k s = Some (Inr (Some a))
                \<and> ref_data s (Some a) = Some (k, v) \<and> ref_second s (Some a) = Some v))
       \<and> lhm_index_const hasher this k s = lhm_at hasher this k s"
proof -
  from assms obtain M where M: "objs s this = Some M"
    and ent: "\<forall>a \<in> set as. dat (heap s) a \<noteq> None"
    by (auto elim: linvE)
  note e = lhm_end_linv[OF M]
  have absent: "lhm_at hasher this k s = Some (Inl index_out_of_bound)"
    if "k \<notin> fst ` set (entries s as)"
  proof -
    from that have "k \<notin> key_of (heap s) ` set as"
      by (simp add: entries_key_image[OF ent])
    from lhm_find_absent[OF assms this] show ?thesis
      by (simp add: lhm_at_def e)
  qed
  have present: "\<exists>a \<in> set as. lhm_at hasher this k s = Some (Inr (Some a))
                \<and> ref_data s (Some a) = Some (k, v) \<and> ref_second s (Some a) = Some v"
    if "(k, v) \<in> set (entries s as)" for v
  proof -
    from entries_memD[OF that ent] obtain a where a: "a \<in> set as" "dat (heap s) a = Some (k, v)"
      by blast
    then have k: "key_of (heap s) a = k" by (simp add: key_of_def)
    have "order_tail M \<noteq> Some a" using linv_tail_notin[OF assms M a(1)] by simp
    then have "lhm_at hasher this k s = Some (Inr (Some a))"
      using lhm_find_present[OF assms a(1)] by (simp add: lhm_at_def e k it_arrow_def)
    with a show ?thesis by (auto simp: ref_data_dat ref_second_def)
  qed
  show ?thesis
  proof (intro conjI allI impI iffI)
    assume "lhm_at hasher this k s = Some (Inl index_out_of_bound)"
    then show "k \<notin> fst ` set (entries s as)"
      using present by force
  qed (use absent present in \<open>auto simp: lhm_index_const_def\<close>)
qed

theorem at_spec_witness:
  "linv id one_store 100 [2]
   \<and> lhm_at id 100 8 one_store = Some (Inl index_out_of_bound)
   \<and> lhm_at id 100 7 one_store = Some (Inr (Some 2))
   \<and> ref_second one_store (Some 2) = Some 70"
proof -
  have "lhm_at id 100 8 one_store = Some (Inl index_out_of_bound)"
    using at_spec[OF linv_one_store, of 8] by (simp add: entries_one_store)
  moreover have "lhm_at id 100 7 one_store = Some (Inr (Some 2)) \<and> ref_second one_store (Some 2) = Some 70"
    using at_spec[OF linv_one_store, of 7] by (simp add: entries_one_store)
  ultimately show ?thesis using linv_one_store by simp
qed

subsection \<open>erase\<close>

text \<open>
  Claim C8, as the code has it.  In a well-formed map, \<^verbatim>\<open>erase(pos)\<close> throws
  \<^verbatim>\<open>invalid_iterator\<close>, with the store unchanged, exactly when \<open>pos\<close> names another
  container, has a null node, or is on the tail sentinel (\<^verbatim>\<open>end()\<close>) or the head sentinel;
  it throws nothing else.  It returns normally only for an iterator on a live entry of this
  map, and for every such iterator it does return: the node is unlinked from its bucket
  chain and from the order list and freed, the map is well formed again with the remaining
  nodes in their old relative order, iteration yields the old entries without the erased
  one, and the size has gone down by one.  \<^verbatim>\<open>size()\<close> is the number of live entries and
  \<^verbatim>\<open>empty()\<close> holds iff there is none.  Over any history of \<^verbatim>\<open>insert\<close> and \<^verbatim>\<open>erase\<close> calls
  the size grows by the number of \<^verbatim>\<open>insert\<close> calls that added an entry and shrinks by the
  number of \<^verbatim>\<open>erase\<close> calls that removed one.
\<close>

theorem erase_spec:
  assumes "linv hasher s this as" and "objs s this = Some M"
  shows "(\<forall>e s'. lhm_erase hasher this pos s = Some (Inl e, s') \<longleftrightarrow>
            e = invalid_iterator \<and> s' = s \<and>
            (map_ptr pos \<noteq> Some this \<or> node pos = None
              \<or> node pos = order_tail M \<or> node pos = order_head M))
       \<and> (\<forall>s'. lhm_erase hasher this pos s = Some (Inr (), s') \<longrightarrow>
            (\<exists>c \<in> set as. pos = \<lparr>node = Some c, map_ptr = Some this\<rparr>))
       \<and> (\<forall>c \<in> set as. \<exists>s'.
            lhm_erase hasher this \<lparr>node = Some c, map_ptr = Some this\<rparr> s = Some (Inr (), s')
            \<and> linv hasher s' this (remove1 c as)
            \<and> heap s' c = None
            \<and> iterate this s' = Some (Inr (remove1 (the (dat (heap s) c)) (entries s as)))
            \<and> lhm_size this s' = Some (length as - 1))
       \<and> iterate this s = Some (Inr (entries s as))
       \<and> lhm_size this s = Some (length as)
       \<and> lhm_empty this s = Some (as = [])
       \<and> (\<forall>ops. \<exists>i e s' as'. run_ops hasher this ops s = Some (i, e, s')
            \<and> linv hasher s' this as'
            \<and> lhm_size this s' = Some (length as + i - e))"
proof (intro conjI allI ballI impI)
  fix e s'
  show "lhm_erase hasher this pos s = Some (Inl e, s') \<longleftrightarrow>
            e = invalid_iterator \<and> s' = s \<and>
            (map_ptr pos \<noteq> Some this \<or> node pos = None
              \<or> node pos = order_tail M \<or> node pos = order_head M)"
    by (rule lhm_erase_throws[OF assms(2)])
next
  fix s' assume "lhm_erase hasher this pos s = Some (Inr (), s')"
  with assms(1) show "\<exists>c \<in> set as. pos = \<lparr>node = Some c, map_ptr = Some this\<rparr>"
    by (rule lhm_erase_success)
next
  fix c assume c: "c \<in> set as"
  from lhm_erase_entries[OF assms(1) c] obtain s' where s':
    "lhm_erase hasher this \<lparr>node = Some c, map_ptr = Some this\<rparr> s = Some (Inr (), s')"
    "linv hasher s' this (remove1 c as)"
    "entries s' (remove1 c as) = entries s (remove1 c as)"
    "heap s' c = None"
    by blast
  have "iterate this s' = Some (Inr (remove1 (the (dat (heap s) c)) (entries s as)))"
    using iterate_linv[OF s'(2)] by (simp add: s'(3) entries_remove1[OF assms(1) c])
  moreover have "lhm_size this s' = Some (length as - 1)"
    using lhm_size_linv(1)[OF s'(2)] c by (simp add: length_remove1)
  ultimately show "\<exists>s'. lhm_erase hasher this \<lparr>node = Some c, map_ptr = Some this\<rparr> s = Some (Inr (), s')
            \<and> linv hasher s' this (remove1 c as)
            \<and> heap s' c = None
            \<and> iterate this s' = Some (Inr (remove1 (the (dat (heap s) c)) (entries s as)))
            \<and> lhm_size this s' = Some (length as - 1)"
    using s' by blast
next
  show "iterate this s = Some (Inr (entries s as))" using assms(1) by (rule iterate_linv)
  show "lhm_size this s = Some (length as)" using assms(1) by (rule lhm_size_linv)
  show "lhm_empty this s = Some (as = [])" using assms(1) by (rule lhm_size_linv)
next
  fix ops
  from run_ops_linv[OF assms(1), of ops] obtain i e s' as' where r:
    "run_ops hasher this ops s = Some (i, e, s')" "linv hasher s' this as'"
    "length as' + e = length as + i"
    by blast
  have "lhm_size this s' = Some (length as + i - e)"
    using lhm_size_linv(1)[OF r(2)] r(3) by simp
  with r show "\<exists>i e s' as'. run_ops hasher this ops s = Some (i, e, s')
            \<and> linv hasher s' this as'
            \<and> lhm_size this s' = Some (length as + i - e)"
    by blast
qed

theorem erase_spec_witness:
  "linv id one_store 100 [2]
   \<and> objs one_store 100 = Some \<lparr>buckets = (replicate 16 None)[7 := Some 2], order_head = Some 0,
                      order_tail = Some 1, bucket_capacity = 16, num_elements = 1\<rparr>
   \<and> lhm_erase id 100 \<lparr>node = Some 1, map_ptr = Some 100\<rparr> one_store
        = Some (Inl invalid_iterator, one_store)
   \<and> (\<exists>s'. lhm_erase id 100 \<lparr>node = Some 2, map_ptr = Some 100\<rparr> one_store = Some (Inr (), s')
          \<and> iterate 100 s' = Some (Inr []) \<and> lhm_size 100 s' = Some 0)
   \<and> lhm_size 100 one_store = Some 1 \<and> lhm_empty 100 one_store = Some False"
proof -
  have M: "objs one_store 100 = Some \<lparr>buckets = (replicate 16 None)[7 := Some 2], order_head = Some 0,
                      order_tail = Some 1, bucket_capacity = 16, num_elements = 1\<rparr>"
    by (simp add: one_store_def)
  note spec = erase_spec[OF linv_one_store M]
  have "lhm_erase id 100 \<lparr>node = Some 1, map_ptr = Some 100\<rparr> one_store
        = Some (Inl invalid_iterator, one_store)"
    using spec[of "\<lparr>node = Some 1, map_ptr = Some 100\<rparr>"] by simp
  moreover have "\<exists>s'. lhm_erase id 100 \<lparr>node = Some 2, map_ptr = Some 100\<rparr> one_store = Some (Inr (), s')
          \<and> iterate 100 s' = Some (Inr []) \<and> lhm_size 100 s' = Some 0"
  proof -
    have d: "the (dat (heap one_store) 2) = (7, 70)"
      by (simp add: one_store_def dat_def Node_def)
    from spec[of "\<lparr>node = Some 2, map_ptr = Some 100\<rparr>"]
    have "\<forall>c \<in> set [2]. \<exists>s'.
            lhm_erase id 100 \<lparr>node = Some c, map_ptr = Some 100\<rparr> one_store = Some (Inr (), s')
            \<and> linv id s' 100 (remove1 c [2])
            \<and> heap s' c = None
            \<and> iterate 100 s' = Some (Inr (remove1 (the (dat (heap one_store) c)) (entries one_store [2])))
            \<and> lhm_size 100 s' = Some (length [2::nat] - 1)"
      by blast
    then show ?thesis by (simp add: d entries_one_store) blast
  qed
  moreover have "lhm_size 100 one_store = Some 1 \<and> lhm_empty 100 one_store = Some False"
    using spec[of "\<lparr>node = Some 2, map_ptr = Some 100\<rparr>"] by simp
  ultimately show ?thesis using linv_one_store M by simp
qed

text \<open>
  Counting distinct keys instead does not give the size: after \<^verbatim>\<open>insert(7)\<close>,
  \<^verbatim>\<open>erase(find(7))\<close>, \<^verbatim>\<open>insert(7)\<close> the size is 1, while one distinct key was ever inserted
  and one entry was erased.
\<close>

theorem erase_size_counterexample:
  "(do { (i, e, s) \<leftarrow> run_ops id 100 [Insert 7 70, Erase 7, Insert 7 71] fresh_store;
         n \<leftarrow> lhm_size 100 s;
         Some (n, card (set (inserted_keys [Insert 7 70, Erase 7, Insert (7::nat) (71::nat)])) - e)
       }) = Some (1, 0)"
  by code_simp

subsection \<open>Erase, then insert again\<close>

text \<open>
  Claim C9.  For any three distinct keys \<open>A\<close>, \<open>B\<close>, \<open>C\<close>, any values, any hash function and
  any initial store: constructing a map, inserting \<open>A\<close>, \<open>B\<close>, \<open>C\<close>, erasing \<open>B\<close> through the
  iterator its insertion returned and inserting \<open>B\<close> again reports an insertion and leaves
  the iteration order \<open>A\<close>, \<open>C\<close>, \<open>B\<close>; without the erase, the second insertion of \<open>B\<close>
  reports no insertion and the order stays \<open>A\<close>, \<open>B\<close>, \<open>C\<close> with the old value of \<open>B\<close>.
\<close>

theorem reinsert_after_erase:
  assumes "distinct [A, B, C]"
  shows "(do { s \<leftarrow> lhm_ctor this s0;
               (_, s) \<leftarrow> lhm_insert hasher this (A, va) s;
               (rb, s) \<leftarrow> lhm_insert hasher this (B, vb) s;
               (_, s) \<leftarrow> lhm_insert hasher this (C, vc) s;
               (_, s) \<leftarrow> lhm_erase hasher this (fst rb) s;
               (r, s) \<leftarrow> lhm_insert hasher this (B, vb') s;
               kvs \<leftarrow> iterate this s;
               Some (snd r, kvs) }) = Some (True, Inr [(A, va), (C, vc), (B, vb')])
       \<and> (do { s \<leftarrow> lhm_ctor this s0;
               (_, s) \<leftarrow> lhm_insert hasher this (A, va) s;
               (_, s) \<leftarrow> lhm_insert hasher this (B, vb) s;
               (_, s) \<leftarrow> lhm_insert hasher this (C, vc) s;
               (r, s) \<leftarrow> lhm_insert hasher this (B, vb') s;
               kvs \<leftarrow> iterate this s;
               Some (snd r, kvs) }) = Some (False, Inr [(A, va), (B, vb), (C, vc)])"
proof -
  from assms have ne: "A \<noteq> B" "A \<noteq> C" "B \<noteq> C" by auto
  from lhm_ctor_linv[of this s0 hasher] obtain s1 where s1:
    "lhm_ctor this s0 = Some s1" "linv hasher s1 this []"
    by blast
  have e1: "entries s1 [] = []" by (simp add: entries_def)
  define a1 where "a1 = brk s1"
  from lhm_insert_new_entries[OF s1(2), of A va] obtain s2 where s2:
    "lhm_insert hasher this (A, va) s1 = Some ((\<lparr>node = Some a1, map_ptr = Some this\<rparr>, True), s2)"
    "linv hasher s2 this [a1]" "entries s2 [a1] = [(A, va)]" "brk s2 = Suc a1"
    by (auto simp: e1 a1_def)
  define a2 where "a2 = brk s2"
  from lhm_insert_new_entries[OF s2(2), of B vb] ne obtain s3 where s3:
    "lhm_insert hasher this (B, vb) s2 = Some ((\<lparr>node = Some a2, map_ptr = Some this\<rparr>, True), s3)"
    "linv hasher s3 this [a1, a2]" "entries s3 [a1, a2] = [(A, va), (B, vb)]" "brk s3 = Suc a2"
    by (auto simp: s2(3) a2_def)
  define a3 where "a3 = brk s3"
  from lhm_insert_new_entries[OF s3(2), of C vc] ne obtain s4 where s4:
    "lhm_insert hasher this (C, vc) s3 = Some ((\<lparr>node = Some a3, map_ptr = Some this\<rparr>, True), s4)"
    "linv hasher s4 this [a1, a2, a3]" "entries s4 [a1, a2, a3] = [(A, va), (B, vb), (C, vc)]"
    by (auto simp: s3(3) a3_def)
  have a12: "a1 \<noteq> a2" by (simp add: a2_def s2(4))
  have datB: "the (dat (heap s4) a2) = (B, vb)" using s4(3) by (simp add: entries_def)
  then have keyB: "key_of (heap s4) a2 = B" by (simp add: key_of_def)
  \<comment> \<open>erase B, insert B again\<close>
  have a2_in: "a2 \<in> set [a1, a2, a3]" by simp
  from lhm_erase_entries[OF s4(2) a2_in] a12 obtain s5 where s5:
    "lhm_erase hasher this \<lparr>node = Some a2, map_ptr = Some this\<rparr> s4 = Some (Inr (), s5)"
    "linv hasher s5 this [a1, a3]" "entries s5 [a1, a3] = entries s4 [a1, a3]"
    by auto
  have "entries s4 [a1, a3] = [(A, va), (C, vc)]"
    using s4(3) by (simp add: entries_def)
  then have e5: "entries s5 [a1, a3] = [(A, va), (C, vc)]"
    by (simp only: s5(3))
  from lhm_insert_new_entries[OF s5(2), of B vb'] ne obtain s6 where s6:
    "lhm_insert hasher this (B, vb') s5 = Some ((\<lparr>node = Some (brk s5), map_ptr = Some this\<rparr>, True), s6)"
    "linv hasher s6 this [a1, a3, brk s5]" "entries s6 [a1, a3, brk s5] = [(A, va), (C, vc), (B, vb')]"
    by (auto simp: e5)
  have it6: "iterate this s6 = Some (Inr [(A, va), (C, vc), (B, vb')])"
    using iterate_linv[OF s6(2)] by (simp add: s6(3))
  \<comment> \<open>insert B again without erasing\<close>
  have again: "lhm_insert hasher this (B, vb') s4 = Some ((\<lparr>node = Some a2, map_ptr = Some this\<rparr>, False), s4)"
    using lhm_insert_existing[OF s4(2) a2_in, of vb'] by (simp add: keyB)
  have it4: "iterate this s4 = Some (Inr [(A, va), (B, vb), (C, vc)])"
    using iterate_linv[OF s4(2)] by (simp add: s4(3))
  show ?thesis
    by (simp add: s1(1) s2(1) s3(1) s4(1) s5(1) s6(1) it6 again it4)
qed

theorem reinsert_after_erase_witness:
  "distinct [1::nat, 2, 3]
   \<and> (do { s \<leftarrow> lhm_ctor 100 empty_store;
               (_, s) \<leftarrow> lhm_insert id 100 (1, 10::nat) s;
               (rb, s) \<leftarrow> lhm_insert id 100 (2, 20) s;
               (_, s) \<leftarrow> lhm_insert id 100 (3, 30) s;
               (_, s) \<leftarrow> lhm_erase id 100 (fst rb) s;
               (r, s) \<leftarrow> lhm_insert id 100 (2, 21) s;
               kvs \<leftarrow> iterate 100 s;
               Some (snd r, kvs) }) = Some (True, Inr [(1, 10), (3, 30), (2, 21)])"
proof -
  have d: "distinct [1::nat, 2, 3]" by simp
  from reinsert_after_erase[OF d, of 100 empty_store id 10 20 30 21] d show ?thesis
    by blast
qed

subsection \<open>Insertion order\<close>

text \<open>
  Claim C2.  For every list of entries with pairwise distinct keys, every hash function
  and every initial store: constructing a map and inserting the entries one after the other
  succeeds, every call reports an insertion, and iterating from \<^verbatim>\<open>begin()\<close> to \<^verbatim>\<open>end()\<close>
  yields exactly the entries in the order of insertion.  Each single insertion appends at
  the tail: the iterator it returns is the one whose increment is \<^verbatim>\<open>end()\<close>, and iteration
  after the \<open>i\<close>-th insertion yields the first \<open>i\<close> entries followed by the new one.
\<close>

theorem insertion_order:
  assumes "distinct (map fst kvs)"
  shows "\<exists>s1 s2. lhm_ctor this s0 = Some s1
        \<and> insert_all hasher this kvs s1 = Some (replicate (length kvs) True, s2)
        \<and> iterate this s2 = Some (Inr kvs)
        \<and> (\<forall>i < length kvs. \<exists>sa sb it e.
              insert_all hasher this (take i kvs) s1 = Some (replicate i True, sa)
            \<and> lhm_insert hasher this (kvs ! i) sa = Some ((it, True), sb)
            \<and> lhm_end this sb = Some e \<and> it_pre_inc it sb = Some (Inr e)
            \<and> iterate this sb = Some (Inr (take (Suc i) kvs)))"
proof -
  from lhm_ctor_linv[of this s0 hasher] obtain s1 where s1:
    "lhm_ctor this s0 = Some s1" "linv hasher s1 this []"
    by blast
  have e1: "entries s1 [] = []" by (simp add: entries_def)
  from insert_all_linv[OF s1(2) assms] obtain s2 bs where s2:
    "insert_all hasher this kvs s1 = Some (replicate (length kvs) True, s2)"
    "linv hasher s2 this bs" "entries s2 bs = kvs"
    by (auto simp: e1)
  have it2: "iterate this s2 = Some (Inr kvs)"
    using iterate_linv[OF s2(2)] by (simp add: s2(3))
  have step: "\<exists>sa sb it e.
              insert_all hasher this (take i kvs) s1 = Some (replicate i True, sa)
            \<and> lhm_insert hasher this (kvs ! i) sa = Some ((it, True), sb)
            \<and> lhm_end this sb = Some e \<and> it_pre_inc it sb = Some (Inr e)
            \<and> iterate this sb = Some (Inr (take (Suc i) kvs))"
    if i: "i < length kvs" for i
  proof -
    have d: "distinct (map fst (take i kvs))"
      using assms by (simp add: take_map[symmetric] distinct_take)
    from insert_all_linv[OF s1(2) d] i obtain sa cs where sa:
      "insert_all hasher this (take i kvs) s1 = Some (replicate i True, sa)"
      "linv hasher sa this cs" "entries sa cs = take i kvs"
      by (auto simp: e1 min_def)
    obtain k v where kv: "kvs ! i = (k, v)" by (cases "kvs ! i")
    have split: "take (Suc i) kvs = take i kvs @ [(k, v)]"
      using i by (simp add: take_Suc_conv_app_nth kv)
    have "distinct (map fst (take (Suc i) kvs))"
      using assms by (simp add: take_map[symmetric] distinct_take)
    then have fresh: "k \<notin> fst ` set (entries sa cs)"
      unfolding split by (simp add: sa(3))
    from lhm_insert_new_entries[OF sa(2) fresh, of v] obtain sb where sb:
      "lhm_insert hasher this (k, v) sa = Some ((\<lparr>node = Some (brk sa), map_ptr = Some this\<rparr>, True), sb)"
      "linv hasher sb this (cs @ [brk sa])"
      "entries sb (cs @ [brk sa]) = entries sa cs @ [(k, v)]"
      by blast
    from it_pre_inc_last[OF sb(2)] obtain e where e: "lhm_end this sb = Some e"
      "it_pre_inc \<lparr>node = Some (brk sa), map_ptr = Some this\<rparr> sb = Some (Inr e)"
      by blast
    have "iterate this sb = Some (Inr (take (Suc i) kvs))"
      using iterate_linv[OF sb(2)] by (simp add: sb(3) sa(3) split)
    with sa(1) sb(1) e show ?thesis
      unfolding kv by blast
  qed
  show ?thesis
    using s1(1) s2(1) it2 step by blast
qed

theorem insertion_order_witness:
  "distinct (map fst [(5::nat, 50::nat), (21, 210), (3, 30)])
   \<and> (\<exists>s1 s2. lhm_ctor 100 empty_store = Some s1
        \<and> insert_all id 100 [(5, 50), (21, 210), (3, 30)] s1 = Some ([True, True, True], s2)
        \<and> iterate 100 s2 = Some (Inr [(5, 50), (21, 210), (3, 30)]))"
proof -
  have d: "distinct (map fst [(5::nat, 50::nat), (21, 210), (3, 30)])" by simp
  from insertion_order[OF d, of 100 empty_store id] d show ?thesis
    by (simp add: numeral_3_eq_3) blast
qed

subsection \<open>Rehashing\<close>

text \<open>
  Claim C4.  In a well-formed map \<^verbatim>\<open>rehash\<close> returns, and it allocates and frees nothing:
  the set of allocated nodes and the allocation mark are the same; of every node the order
  links and the stored pair are the same, so only chain links changed, and only in entry
  nodes; of the map object the sentinels and the size are the same and the capacity has
  doubled; other map objects are untouched.  The map is well formed again with the same
  node list, and iteration yields the same entries.  Consequently, after any sequence of
  insertions of new distinct keys (which grows the table whenever the load factor demands
  it) iteration yields the old entries followed by the new ones, and \<^verbatim>\<open>find\<close> of every
  old key returns the node of that entry with the value it had.
\<close>

theorem rehash_frame:
  assumes "linv hasher s this as" and "objs s this = Some M"
  shows "\<exists>s' M'. rehash hasher this s = Some s' \<and> objs s' this = Some M'
      \<and> dom (heap s') = dom (heap s) \<and> brk s' = brk s
      \<and> onx (heap s') = onx (heap s) \<and> opv (heap s') = opv (heap s)
      \<and> dat (heap s') = dat (heap s)
      \<and> (\<forall>x. x \<notin> set as \<longrightarrow> heap s' x = heap s x)
      \<and> order_head M' = order_head M \<and> order_tail M' = order_tail M
      \<and> num_elements M' = num_elements M
      \<and> bucket_capacity M' = bucket_capacity M * 2
      \<and> (\<forall>m. m \<noteq> this \<longrightarrow> objs s' m = objs s m)
      \<and> linv hasher s' this as
      \<and> iterate this s' = iterate this s
      \<and> (\<forall>kvs. distinct (map fst kvs) \<and> fst ` set kvs \<inter> fst ` set (entries s as) = {} \<longrightarrow>
            (\<exists>s2. insert_all hasher this kvs s = Some (replicate (length kvs) True, s2)
               \<and> iterate this s2 = Some (Inr (entries s as @ kvs))
               \<and> (\<forall>(k, v) \<in> set (entries s as). \<exists>a \<in> set as.
                     lhm_find hasher this k s2 = Some \<lparr>node = Some a, map_ptr = Some this\<rparr>
                     \<and> ref_data s2 (Some a) = Some (k, v))))"
proof -
  from rehash_spec[OF assms] obtain s' nb' where r: "rehash hasher this s = Some s'"
     "objs s' = (objs s)(this \<mapsto> M\<lparr>buckets := nb', bucket_capacity := bucket_capacity M * 2\<rparr>)"
     "linv hasher s' this as"
     "onx (heap s') = onx (heap s)" "opv (heap s') = opv (heap s)" "dat (heap s') = dat (heap s)"
     "dom (heap s') = dom (heap s)"
     "\<forall>x. x \<notin> set as \<longrightarrow> heap s' x = heap s x"
     "brk s' = brk s"
    by blast
  have ent: "entries s' as = entries s as" by (intro entries_cong) (simp add: r(6))
  have it: "iterate this s' = iterate this s"
    by (simp add: iterate_linv[OF r(3)] iterate_linv[OF assms(1)] ent)
  have seq: "\<exists>s2. insert_all hasher this kvs s = Some (replicate (length kvs) True, s2)
               \<and> iterate this s2 = Some (Inr (entries s as @ kvs))
               \<and> (\<forall>(k, v) \<in> set (entries s as). \<exists>a \<in> set as.
                     lhm_find hasher this k s2 = Some \<lparr>node = Some a, map_ptr = Some this\<rparr>
                     \<and> ref_data s2 (Some a) = Some (k, v))"
    if kvs: "distinct (map fst kvs) \<and> fst ` set kvs \<inter> fst ` set (entries s as) = {}" for kvs
  proof -
    from insert_all_linv[OF assms(1), of kvs] kvs obtain s2 bs where s2:
      "insert_all hasher this kvs s = Some (replicate (length kvs) True, s2)"
      "linv hasher s2 this (as @ bs)" "entries s2 (as @ bs) = entries s as @ kvs"
      "entries s2 as = entries s as"
      by blast
    have "iterate this s2 = Some (Inr (entries s as @ kvs))"
      using iterate_linv[OF s2(2)] by (simp add: s2(3))
    moreover have "\<exists>a \<in> set as. lhm_find hasher this k s2 = Some \<lparr>node = Some a, map_ptr = Some this\<rparr>
                     \<and> ref_data s2 (Some a) = Some (k, v)"
      if "(k, v) \<in> set (entries s as)" for k v
    proof -
      from that have mem: "(k, v) \<in> set (entries s2 as)" by (simp add: s2(4))
      from s2(2) have "\<forall>a \<in> set (as @ bs). dat (heap s2) a \<noteq> None" by (auto elim: linvE)
      then have "\<forall>a \<in> set as. dat (heap s2) a \<noteq> None" by simp
      from entries_memD[OF mem this] obtain a where a: "a \<in> set as" "dat (heap s2) a = Some (k, v)"
        by blast
      then have "key_of (heap s2) a = k" by (simp add: key_of_def)
      moreover have "a \<in> set (as @ bs)" using a(1) by simp
      ultimately show ?thesis
        using lhm_find_present[OF s2(2), of a] a by (auto simp: ref_data_dat)
    qed
    ultimately show ?thesis using s2(1) by blast
  qed
  define M' where "M' = M\<lparr>buckets := nb', bucket_capacity := bucket_capacity M * 2\<rparr>"
  have M': "objs s' this = Some M'" "order_head M' = order_head M" "order_tail M' = order_tail M"
    "num_elements M' = num_elements M" "bucket_capacity M' = bucket_capacity M * 2"
    "\<forall>m. m \<noteq> this \<longrightarrow> objs s' m = objs s m"
    by (simp_all add: r(2) M'_def)
  from seq have seq': "\<forall>kvs. distinct (map fst kvs) \<and> fst ` set kvs \<inter> fst ` set (entries s as) = {} \<longrightarrow>
            (\<exists>s2. insert_all hasher this kvs s = Some (replicate (length kvs) True, s2)
               \<and> iterate this s2 = Some (Inr (entries s as @ kvs))
               \<and> (\<forall>(k, v) \<in> set (entries s as). \<exists>a \<in> set as.
                     lhm_find hasher this k s2 = Some \<lparr>node = Some a, map_ptr = Some this\<rparr>
                     \<and> ref_data s2 (Some a) = Some (k, v)))"
    by (intro allI impI)
  show ?thesis
    by (rule exI[of _ s'], rule exI[of _ M'], intro conjI)
       (fact r(1) M' r(7) r(9) r(4) r(5) r(6) r(8) r(3) it seq')+
qed

theorem rehash_frame_witness:
  "linv id one_store 100 [2]
   \<and> objs one_store 100 = Some \<lparr>buckets = (replicate 16 None)[7 := Some 2], order_head = Some 0,
                      order_tail = Some 1, bucket_capacity = 16, num_elements = 1\<rparr>
   \<and> (\<exists>s' M'. rehash id 100 one_store = Some s' \<and> objs s' 100 = Some M'
         \<and> dom (heap s') = dom (heap one_store) \<and> brk s' = 3
         \<and> dat (heap s') = dat (heap one_store)
         \<and> bucket_capacity M' = 32 \<and> num_elements M' = 1
         \<and> iterate 100 s' = Some (Inr [(7, 70)]))
   \<and> (\<exists>s2. insert_all id 100 [(23, 1), (39, 2)] one_store = Some ([True, True], s2)
         \<and> iterate 100 s2 = Some (Inr [(7, 70), (23, 1), (39, 2)]))"
proof -
  have M: "objs one_store 100 = Some \<lparr>buckets = (replicate 16 None)[7 := Some 2], order_head = Some 0,
                      order_tail = Some 1, bucket_capacity = 16, num_elements = 1\<rparr>"
    by (simp add: one_store_def)
  have it: "iterate 100 one_store = Some (Inr [(7, 70)])"
    using iterate_linv[OF linv_one_store] by (simp add: entries_one_store)
  note T = rehash_frame[OF linv_one_store M]
  from T obtain s' M' where r:
    "rehash id 100 one_store = Some s'" "objs s' 100 = Some M'"
    "dom (heap s') = dom (heap one_store)" "brk s' = brk one_store"
    "dat (heap s') = dat (heap one_store)"
    "num_elements M' = 1" "bucket_capacity M' = 16 * 2"
    "iterate 100 s' = iterate 100 one_store"
    by (auto simp: M)
  have 1: "\<exists>s' M'. rehash id 100 one_store = Some s' \<and> objs s' 100 = Some M'
         \<and> dom (heap s') = dom (heap one_store) \<and> brk s' = 3
         \<and> dat (heap s') = dat (heap one_store)
         \<and> bucket_capacity M' = 32 \<and> num_elements M' = 1
         \<and> iterate 100 s' = Some (Inr [(7, 70)])"
    using r it by (intro exI[of _ s'] exI[of _ M']) (simp add: one_store_def)
  have d: "distinct (map fst [(23::nat, 1::nat), (39, 2)])
      \<and> fst ` set [(23::nat, 1::nat), (39, 2)] \<inter> fst ` set (entries one_store [2]) = {}"
    by (simp add: entries_one_store)
  from T have seq: "\<forall>kvs. distinct (map fst kvs) \<and> fst ` set kvs \<inter> fst ` set (entries one_store [2]) = {} \<longrightarrow>
            (\<exists>s2. insert_all id 100 kvs one_store = Some (replicate (length kvs) True, s2)
               \<and> iterate 100 s2 = Some (Inr (entries one_store [2] @ kvs))
               \<and> (\<forall>(k, v) \<in> set (entries one_store [2]). \<exists>a \<in> set [2].
                     lhm_find id 100 k s2 = Some \<lparr>node = Some a, map_ptr = Some 100\<rparr>
                     \<and> ref_data s2 (Some a) = Some (k, v)))"
    by (elim exE conjE)
  from seq[rule_format, OF d] obtain s2 where s2:
    "insert_all id 100 [(23, 1), (39, 2)] one_store
       = Some (replicate (length [(23::nat, 1::nat), (39, 2)]) True, s2)"
    "iterate 100 s2 = Some (Inr (entries one_store [2] @ [(23, 1), (39, 2)]))"
    by blast
  have rl: "replicate (length [(23::nat, 1::nat), (39, 2)]) True = [True, True]" by simp
  have el: "entries one_store [2] @ [(23, 1), (39, 2)] = [(7, 70), (23, 1), (39, 2)]"
    by (simp add: entries_one_store)
  have 2: "\<exists>s2. insert_all id 100 [(23, 1), (39, 2)] one_store = Some ([True, True], s2)
         \<and> iterate 100 s2 = Some (Inr [(7, 70), (23, 1), (39, 2)])"
    using s2 unfolding rl el by blast
  from 1 2 linv_one_store M show ?thesis by blast
qed

subsection \<open>The mutating operator[]\<close>

text \<open>
  Claim C6.  In a well-formed map, \<^verbatim>\<open>operator[]\<close> with an absent key inserts the key with
  the default value: it returns a reference to a new node, the size is one more, iteration
  yields the old entries followed by the new one, the reference reads the default value,
  and after assigning any value through the reference \<^verbatim>\<open>at\<close> of the key returns the same
  node, which now reads the assigned value.  With a present key it returns the reference to
  the existing entry and the store is the one before the call.
\<close>

theorem index_spec:
  assumes "linv hasher s this as"
  shows "(k \<notin> fst ` set (entries s as) \<longrightarrow>
           (\<exists>a s'. lhm_index hasher dflt this k s = Some (Some a, s')
              \<and> a \<notin> set as \<and> linv hasher s' this (as @ [a])
              \<and> iterate this s' = Some (Inr (entries s as @ [(k, dflt)]))
              \<and> lhm_size this s' = Some (length as + 1)
              \<and> ref_data s' (Some a) = Some (k, dflt)
              \<and> lhm_at hasher this k s' = Some (Inr (Some a))
              \<and> (\<forall>v. \<exists>s''. assign_second (Some a) v s' = Some s''
                    \<and> lhm_at hasher this k s'' = Some (Inr (Some a))
                    \<and> ref_second s'' (Some a) = Some v)))
       \<and> (\<forall>v0. (k, v0) \<in> set (entries s as) \<longrightarrow>
           (\<exists>a \<in> set as. lhm_index hasher dflt this k s = Some (Some a, s)
              \<and> ref_data s (Some a) = Some (k, v0)))"
proof (intro conjI allI impI)
  assume fresh: "k \<notin> fst ` set (entries s as)"
  from assms obtain M where M: "objs s this = Some M" and lt: "\<forall>a \<in> set as. a < brk s"
    by (auto elim!: linvE)
  define a where "a = brk s"
  have a_new: "a \<notin> set as" using lt by (auto simp: a_def)
  from lhm_insert_new_entries[OF assms fresh, of dflt] obtain s' where s':
    "lhm_insert hasher this (k, dflt) s = Some ((\<lparr>node = Some a, map_ptr = Some this\<rparr>, True), s')"
    "linv hasher s' this (as @ [a])"
    "entries s' (as @ [a]) = entries s as @ [(k, dflt)]"
    unfolding a_def by blast
  have "k \<notin> key_of (heap s) ` set as" using fresh by (simp add: linv_keys(1)[OF assms])
  then have find: "lhm_find hasher this k s = lhm_end this s"
    by (rule lhm_find_absent[OF assms])
  have run: "lhm_index hasher dflt this k s = Some (Some a, s')"
    by (simp add: lhm_index_def find lhm_end_linv[OF M] s'(1))
  have a_in: "a \<in> set (as @ [a])" by simp
  have da: "ref_data s' (Some a) = Some (k, dflt)"
  proof -
    have "the (dat (heap s') a) = (k, dflt)" using s'(3) by (simp add: entries_def)
    moreover have "dat (heap s') a \<noteq> None" using s'(2) a_in by (auto elim!: linvE)
    ultimately show ?thesis by (auto simp: ref_data_dat)
  qed
  then have ka: "key_of (heap s') a = k" by (simp add: key_of_def ref_data_dat)
  from s'(2) obtain M' where M': "objs s' this = Some M'" by (auto elim: linvE)
  have at: "lhm_at hasher this k s1 = Some (Inr (Some a))"
    if "linv hasher s1 this (as @ [a])" "key_of (heap s1) a = k" for s1
  proof -
    from that(1) obtain M1 where M1: "objs s1 this = Some M1" by (auto elim: linvE)
    have "order_tail M1 \<noteq> Some a" using linv_tail_notin[OF that(1) M1 a_in] by simp
    then show ?thesis
      using lhm_find_present[OF that(1) a_in]
      by (simp add: lhm_at_def that(2) lhm_end_linv[OF M1] it_arrow_def)
  qed
  have wr: "\<exists>s''. assign_second (Some a) v s' = Some s''
                    \<and> lhm_at hasher this k s'' = Some (Inr (Some a))
                    \<and> ref_second s'' (Some a) = Some v" for v
  proof -
    from assign_second_entry[OF s'(2) a_in, of v] obtain s'' where s'':
      "assign_second (Some a) v s' = Some s''" "linv hasher s'' this (as @ [a])"
      "ref_data s'' (Some a) = Some (key_of (heap s') a, v)"
      "key_of (heap s'') a = key_of (heap s') a"
      by blast
    have "lhm_at hasher this k s'' = Some (Inr (Some a))"
      using s''(2) by (rule at) (simp add: s''(4) ka)
    moreover have "ref_second s'' (Some a) = Some v" by (simp add: ref_second_def s''(3))
    ultimately show ?thesis using s''(1) by blast
  qed
  have "iterate this s' = Some (Inr (entries s as @ [(k, dflt)]))"
    using iterate_linv[OF s'(2)] by (simp add: s'(3))
  moreover have "lhm_size this s' = Some (length as + 1)"
    using lhm_size_linv(1)[OF s'(2)] by simp
  moreover have "lhm_at hasher this k s' = Some (Inr (Some a))"
    using s'(2) ka by (rule at)
  ultimately show "\<exists>a s'. lhm_index hasher dflt this k s = Some (Some a, s')
              \<and> a \<notin> set as \<and> linv hasher s' this (as @ [a])
              \<and> iterate this s' = Some (Inr (entries s as @ [(k, dflt)]))
              \<and> lhm_size this s' = Some (length as + 1)
              \<and> ref_data s' (Some a) = Some (k, dflt)
              \<and> lhm_at hasher this k s' = Some (Inr (Some a))
              \<and> (\<forall>v. \<exists>s''. assign_second (Some a) v s' = Some s''
                    \<and> lhm_at hasher this k s'' = Some (Inr (Some a))
                    \<and> ref_second s'' (Some a) = Some v)"
    using run a_new s'(2) da wr by blast
next
  fix v0 assume "(k, v0) \<in> set (entries s as)"
  from find_entry[OF assms this] obtain a where a: "a \<in> set as"
    "lhm_find hasher this k s = Some \<lparr>node = Some a, map_ptr = Some this\<rparr>"
    "ref_data s (Some a) = Some (k, v0)"
    by blast
  from assms obtain M where M: "objs s this = Some M" by (auto elim: linvE)
  have "order_tail M \<noteq> Some a" using linv_tail_notin[OF assms M a(1)] by simp
  then have "lhm_index hasher dflt this k s = Some (Some a, s)"
    by (simp add: lhm_index_def a(2) lhm_end_linv[OF M])
  with a show "\<exists>a \<in> set as. lhm_index hasher dflt this k s = Some (Some a, s)
              \<and> ref_data s (Some a) = Some (k, v0)"
    by blast
qed

theorem index_spec_witness:
  "linv id one_store 100 [2]
   \<and> (\<exists>a s'. lhm_index id 0 100 9 one_store = Some (Some a, s')
         \<and> iterate 100 s' = Some (Inr [(7, 70), (9, 0)])
         \<and> lhm_size 100 s' = Some 2
         \<and> (\<exists>s''. assign_second (Some a) 5 s' = Some s''
               \<and> lhm_at id 100 9 s'' = Some (Inr (Some a)) \<and> ref_second s'' (Some a) = Some 5))
   \<and> lhm_index id 0 100 7 one_store = Some (Some 2, one_store)"
proof -
  note spec = index_spec[OF linv_one_store, where dflt = 0]
  from spec[of 9] obtain a s' where r:
    "lhm_index id 0 100 9 one_store = Some (Some a, s')"
    "iterate 100 s' = Some (Inr [(7, 70), (9, 0)])"
    "lhm_size 100 s' = Some 2"
    "\<forall>v. \<exists>s''. assign_second (Some a) v s' = Some s''
           \<and> lhm_at id 100 9 s'' = Some (Inr (Some a)) \<and> ref_second s'' (Some a) = Some v"
    by (auto simp: entries_one_store)
  from r(4) obtain s'' where "assign_second (Some a) 5 s' = Some s''"
    "lhm_at id 100 9 s'' = Some (Inr (Some a))" "ref_second s'' (Some a) = Some 5"
    by blast
  with r(1-3) have "\<exists>a s'. lhm_index id 0 100 9 one_store = Some (Some a, s')
         \<and> iterate 100 s' = Some (Inr [(7, 70), (9, 0)])
         \<and> lhm_size 100 s' = Some 2
         \<and> (\<exists>s''. assign_second (Some a) 5 s' = Some s''
               \<and> lhm_at id 100 9 s'' = Some (Inr (Some a)) \<and> ref_second s'' (Some a) = Some 5)"
    by blast
  moreover have "lhm_index id 0 100 7 one_store = Some (Some 2, one_store)"
    using spec[of 7] by (simp add: entries_one_store)
  ultimately show ?thesis using linv_one_store by blast
qed

subsection \<open>Capacity and load factor\<close>



text \<open>
  Claim C10.  Let \<open>other\<close> be a well-formed map with node list \<open>bs\<close> and \<open>this \<noteq> other\<close>.
  Copy construction of \<open>this\<close> from \<open>other\<close> returns normally; afterwards the two maps are both
  well formed and share no node, iterating either of them yields the entries that \<open>other\<close>
  had, in the same order, every node of the copy lies at an address that had not been handed
  out before the call (fresh storage), and the object and the nodes of \<open>other\<close> are untouched.
  Copy assignment \<open>this = other\<close> onto a well-formed map \<open>this\<close> that shares no node with
  \<open>other\<close> has the same result.  Self-assignment returns the store as it is.  Whenever two
  maps share no node, a mutating call (\<^verbatim>\<open>insert\<close>, \<^verbatim>\<open>erase\<close>, \<^verbatim>\<open>clear\<close>, assignment through
  \<^verbatim>\<open>operator[]\<close> or \<^verbatim>\<open>at\<close>) on one of them leaves the object, the nodes and the iteration of
  the other unchanged and the two maps still share no node, in both directions.
\<close>

theorem copy_independent:
  assumes invo: "linv hasher s other bs" and ne: "this \<noteq> other"
  shows "(\<exists>s' as. lhm_copy_ctor hasher this other s = Some (Inr (), s')
            \<and> separate hasher s' this as other bs
            \<and> iterate this s' = Some (Inr (entries s bs))
            \<and> iterate other s' = Some (Inr (entries s bs))
            \<and> owned s' this as \<subseteq> {x. brk s \<le> x}
            \<and> objs s' other = objs s other \<and> (\<forall>x \<in> owned s other bs. heap s' x = heap s x))
       \<and> (\<forall>as0. separate hasher s this as0 other bs \<longrightarrow>
            (\<exists>s' as. lhm_assign hasher this other s = Some (Inr (), s')
              \<and> separate hasher s' this as other bs
              \<and> iterate this s' = Some (Inr (entries s bs))
              \<and> iterate other s' = Some (Inr (entries s bs))
              \<and> owned s' this as \<subseteq> {x. brk s \<le> x}
              \<and> objs s' other = objs s other \<and> (\<forall>x \<in> owned s other bs. heap s' x = heap s x)))
       \<and> lhm_assign hasher other other s = Some (Inr (), s)
       \<and> (\<forall>as u dflt s'. separate hasher s this as other bs
              \<and> apply_mut hasher dflt this u s = Some s' \<longrightarrow>
            (\<exists>as'. separate hasher s' this as' other bs)
              \<and> iterate other s' = iterate other s
              \<and> objs s' other = objs s other \<and> (\<forall>x \<in> owned s other bs. heap s' x = heap s x))
       \<and> (\<forall>as u dflt s'. separate hasher s this as other bs
              \<and> apply_mut hasher dflt other u s = Some s' \<longrightarrow>
            (\<exists>bs'. separate hasher s' this as other bs')
              \<and> iterate this s' = iterate this s
              \<and> objs s' this = objs s this \<and> (\<forall>x \<in> owned s this as. heap s' x = heap s x))"
proof -
  have A: "\<exists>s' as. lhm_copy_ctor hasher this other s = Some (Inr (), s')
            \<and> separate hasher s' this as other bs
            \<and> iterate this s' = Some (Inr (entries s bs))
            \<and> iterate other s' = Some (Inr (entries s bs))
            \<and> owned s' this as \<subseteq> {x. brk s \<le> x}
            \<and> objs s' other = objs s other \<and> (\<forall>x \<in> owned s other bs. heap s' x = heap s x)"
  proof -
    from lhm_copy_ctor_spec[OF invo ne] obtain s' as where r:
      "lhm_copy_ctor hasher this other s = Some (Inr (), s')"
      "separate hasher s' this as other bs"
      "entries s' as = entries s bs" "entries s' bs = entries s bs"
      "owned s' this as \<subseteq> {x. brk s \<le> x}"
      "objs s' other = objs s other" "\<forall>x \<in> owned s other bs. heap s' x = heap s x"
      by blast
    from r(2) have i: "linv hasher s' this as" "linv hasher s' other bs"
      by (simp_all add: separate_def)
    show ?thesis
      using r(1,2,5,6,7) iterate_linv[OF i(1)] iterate_linv[OF i(2)] unfolding r(3,4)
      by (intro exI[of _ s'] exI[of _ as]) simp
  qed
  have B: "\<forall>as0. separate hasher s this as0 other bs \<longrightarrow>
            (\<exists>s' as. lhm_assign hasher this other s = Some (Inr (), s')
              \<and> separate hasher s' this as other bs
              \<and> iterate this s' = Some (Inr (entries s bs))
              \<and> iterate other s' = Some (Inr (entries s bs))
              \<and> owned s' this as \<subseteq> {x. brk s \<le> x}
              \<and> objs s' other = objs s other \<and> (\<forall>x \<in> owned s other bs. heap s' x = heap s x))"
  proof (intro allI impI)
    fix as0 assume sep: "separate hasher s this as0 other bs"
    from lhm_assign_spec[OF sep] obtain s' as where r:
      "lhm_assign hasher this other s = Some (Inr (), s')"
      "separate hasher s' this as other bs"
      "entries s' as = entries s bs" "entries s' bs = entries s bs"
      "owned s' this as \<subseteq> {x. brk s \<le> x}"
      "objs s' other = objs s other" "\<forall>x \<in> owned s other bs. heap s' x = heap s x"
      by blast
    from r(2) have i: "linv hasher s' this as" "linv hasher s' other bs"
      by (simp_all add: separate_def)
    show "\<exists>s' as. lhm_assign hasher this other s = Some (Inr (), s')
              \<and> separate hasher s' this as other bs
              \<and> iterate this s' = Some (Inr (entries s bs))
              \<and> iterate other s' = Some (Inr (entries s bs))
              \<and> owned s' this as \<subseteq> {x. brk s \<le> x}
              \<and> objs s' other = objs s other \<and> (\<forall>x \<in> owned s other bs. heap s' x = heap s x)"
      using r(1,2,5,6,7) iterate_linv[OF i(1)] iterate_linv[OF i(2)] unfolding r(3,4)
      by (intro exI[of _ s'] exI[of _ as]) simp
  qed
  have C: "lhm_assign hasher other other s = Some (Inr (), s)"
    by (simp add: lhm_assign_def)
  have D: "\<forall>as u dflt s'. separate hasher s this as other bs
              \<and> apply_mut hasher dflt this u s = Some s' \<longrightarrow>
            (\<exists>as'. separate hasher s' this as' other bs)
              \<and> iterate other s' = iterate other s
              \<and> objs s' other = objs s other \<and> (\<forall>x \<in> owned s other bs. heap s' x = heap s x)"
  proof (intro allI impI, elim conjE)
    fix as u dflt s'
    assume sep: "separate hasher s this as other bs"
      and run: "apply_mut hasher dflt this u s = Some s'"
    from mutation_separate[OF sep run] obtain as' where r:
      "separate hasher s' this as' other bs" "entries s' bs = entries s bs"
      "objs s' other = objs s other" "\<forall>x \<in> owned s other bs. heap s' x = heap s x"
      by blast
    from r(1) have "linv hasher s' other bs" by (simp add: separate_def)
    then have "iterate other s' = iterate other s"
      using iterate_linv[OF invo] by (simp add: iterate_linv r(2))
    with r show "(\<exists>as'. separate hasher s' this as' other bs)
              \<and> iterate other s' = iterate other s
              \<and> objs s' other = objs s other \<and> (\<forall>x \<in> owned s other bs. heap s' x = heap s x)"
      by blast
  qed
  have E: "\<forall>as u dflt s'. separate hasher s this as other bs
              \<and> apply_mut hasher dflt other u s = Some s' \<longrightarrow>
            (\<exists>bs'. separate hasher s' this as other bs')
              \<and> iterate this s' = iterate this s
              \<and> objs s' this = objs s this \<and> (\<forall>x \<in> owned s this as. heap s' x = heap s x)"
  proof (intro allI impI, elim conjE)
    fix as u dflt s'
    assume sep: "separate hasher s this as other bs"
      and run: "apply_mut hasher dflt other u s = Some s'"
    from sep have inv: "linv hasher s this as" by (simp add: separate_def)
    from mutation_separate[OF separate_sym[OF sep] run] obtain bs' where r:
      "separate hasher s' other bs' this as" "entries s' as = entries s as"
      "objs s' this = objs s this" "\<forall>x \<in> owned s this as. heap s' x = heap s x"
      by blast
    from r(1) have "linv hasher s' this as" by (simp add: separate_def)
    then have "iterate this s' = iterate this s"
      using iterate_linv[OF inv] by (simp add: iterate_linv r(2))
    with r(3,4) separate_sym[OF r(1)]
    show "(\<exists>bs'. separate hasher s' this as other bs')
              \<and> iterate this s' = iterate this s
              \<and> objs s' this = objs s this \<and> (\<forall>x \<in> owned s this as. heap s' x = heap s x)"
      by blast
  qed
  show ?thesis
    by (intro conjI) (fact A B C D E)+
qed

theorem copy_independent_witness:
  "\<exists>s1 s2 s3 s4. lhm_copy_ctor id 200 100 one_store = Some (Inr (), s1)
     \<and> iterate 200 s1 = Some (Inr [(7, 70)]) \<and> iterate 100 s1 = Some (Inr [(7, 70)])
     \<and> apply_mut id 0 200 M_clear s1 = Some s2
     \<and> iterate 200 s2 = Some (Inr []) \<and> iterate 100 s2 = Some (Inr [(7, 70)])
     \<and> lhm_assign id 200 100 s2 = Some (Inr (), s3)
     \<and> iterate 200 s3 = Some (Inr [(7, 70)]) \<and> iterate 100 s3 = Some (Inr [(7, 70)])
     \<and> apply_mut id 0 100 M_clear s3 = Some s4
     \<and> iterate 100 s4 = Some (Inr []) \<and> iterate 200 s4 = Some (Inr [(7, 70)])
     \<and> lhm_assign id 100 100 s4 = Some (Inr (), s4)"
proof -
  have ne: "(200::nat) \<noteq> 100" by simp
  note T1 = copy_independent[OF linv_one_store ne]
  from T1[THEN conjunct1] obtain s1 as1 where s1:
    "lhm_copy_ctor id 200 100 one_store = Some (Inr (), s1)"
    "separate id s1 200 as1 100 [2]"
    "iterate 200 s1 = Some (Inr [(7, 70)])" "iterate 100 s1 = Some (Inr [(7, 70)])"
    unfolding entries_one_store by (elim exE conjE)
  from s1(2) have i1: "linv id s1 200 as1" "linv id s1 100 [2]"
    by (simp_all add: separate_def)
  from i1(1) obtain M1 where M1: "objs s1 200 = Some M1" by (auto elim: linvE)
  from lhm_clear_linv[OF i1(1) M1] obtain s2 where s2:
    "lhm_clear 200 s1 = Some s2" "linv id s2 200 []"
    by (elim exE conjE)
  have m2: "apply_mut id 0 200 M_clear s1 = Some s2" by (simp add: s2(1))
  note T2 = copy_independent[OF i1(2) ne]
  have "(\<exists>as'. separate id s2 200 as' 100 [2]) \<and> iterate 100 s2 = iterate 100 s1"
    using T2[THEN conjunct2, THEN conjunct2, THEN conjunct2, THEN conjunct1, rule_format,
        of as1 0 M_clear s2] s1(2) m2 by simp
  then obtain as2 where sep2: "separate id s2 200 as2 100 [2]"
    and it2: "iterate 100 s2 = Some (Inr [(7, 70)])"
    unfolding s1(4) by (elim exE conjE)
  from sep2 have i2: "linv id s2 100 [2]" by (simp add: separate_def)
  have e2: "entries s2 [2] = [(7, 70)]"
    using iterate_linv[OF i2] it2 by simp
  have it2': "iterate 200 s2 = Some (Inr [])"
    using iterate_linv[OF s2(2)] by (simp add: entries_def)
  note T3 = copy_independent[OF i2 ne]
  from T3[THEN conjunct2, THEN conjunct1, rule_format, OF sep2] obtain s3 as3 where s3:
    "lhm_assign id 200 100 s2 = Some (Inr (), s3)"
    "separate id s3 200 as3 100 [2]"
    "iterate 200 s3 = Some (Inr [(7, 70)])" "iterate 100 s3 = Some (Inr [(7, 70)])"
    unfolding e2 by (elim exE conjE)
  from s3(2) have i3: "linv id s3 100 [2]" by (simp add: separate_def)
  from i3 obtain M3 where M3: "objs s3 100 = Some M3" by (auto elim: linvE)
  from lhm_clear_linv[OF i3 M3] obtain s4 where s4:
    "lhm_clear 100 s3 = Some s4" "linv id s4 100 []"
    by (elim exE conjE)
  have m4: "apply_mut id 0 100 M_clear s3 = Some s4" by (simp add: s4(1))
  note T4 = copy_independent[OF i3 ne]
  have it4: "iterate 200 s4 = Some (Inr [(7, 70)])"
    using T4[THEN conjunct2, THEN conjunct2, THEN conjunct2, THEN conjunct2, rule_format,
        of as3 0 M_clear s4] s3(2) m4 by (simp add: s3(3))
  have it4': "iterate 100 s4 = Some (Inr [])"
    using iterate_linv[OF s4(2)] by (simp add: entries_def)
  note T5 = copy_independent[OF s4(2) ne]
  have self: "lhm_assign id 100 100 s4 = Some (Inr (), s4)"
    by (rule T5[THEN conjunct2, THEN conjunct2, THEN conjunct1])
  show ?thesis
    using s1(1,3,4) m2 it2' it2 s3(1,3,4) m4 it4' it4 self
    by (intro exI[of _ s1] exI[of _ s2] exI[of _ s3] exI[of _ s4]) simp
qed

end
